theory Spec2Isabelle
  imports Complex_Main "HOL-Library.Sublist"
begin

section \<open>Python values and errors\<close>

text \<open>
  Exceptions of the Python source are values: every function that can raise returns
  \<open>py_error + 'a\<close>, with \<open>Inl\<close> for the exception.  Floating-point numbers
  (timestamps, thresholds, the sampling rate) are idealised as reals; capacitance
  counts and sample indices are Python/numpy integers.
\<close>

datatype py_error =
    KeyError string
  | IndexError
  | ValueError
  | TypeError
  | TransportError

text \<open>Python's \<open>int(x)\<close> on a float truncates toward zero.\<close>

definition py_int :: "real \<Rightarrow> int" where
  "py_int x = (if 0 \<le> x then \<lfloor>x\<rfloor> else \<lceil>x\<rceil>)"

text \<open>\<open>np.where(mask)[0]\<close>: the indices at which a boolean array is true, ascending.\<close>

definition np_where :: "bool list \<Rightarrow> nat list" where
  "np_where bs = filter (\<lambda>i. bs ! i) [0..<length bs]"

text \<open>\<open>xs[a:b]\<close> for non-negative \<open>a\<close>, \<open>b\<close>.\<close>

definition py_slice :: "'a list \<Rightarrow> nat \<Rightarrow> nat \<Rightarrow> 'a list" where
  "py_slice xs a b = take (b - a) (drop a xs)"

text \<open>\<open>xs[idxs]\<close> with an array of non-negative indices: IndexError when one is out of range.\<close>

definition take_idx :: "'a list \<Rightarrow> nat list \<Rightarrow> py_error + 'a list" where
  "take_idx xs idxs =
     (if list_all (\<lambda>i. i < length xs) idxs then Inr (map (\<lambda>i. xs ! i) idxs)
      else Inl IndexError)"

text \<open>\<open>xs[i]\<close> for one Python integer: a negative index counts from the end.\<close>

definition py_index :: "'a list \<Rightarrow> int \<Rightarrow> py_error + 'a" where
  "py_index xs i =
     (if 0 \<le> i \<and> i < int (length xs) then Inr (xs ! nat i)
      else if i < 0 \<and> - int (length xs) \<le> i then Inr (xs ! nat (int (length xs) + i))
      else Inl IndexError)"

text \<open>The results of a list of calls in order, or the first exception among them.\<close>

fun sequence_err :: "('e + 'a) list \<Rightarrow> 'e + 'a list" where
  "sequence_err [] = Inr []"
| "sequence_err (r # rs) =
     (case r of Inl e \<Rightarrow> Inl e
      | Inr x \<Rightarrow> (case sequence_err rs of Inl e \<Rightarrow> Inl e | Inr xs \<Rightarrow> Inr (x # xs)))"

text \<open>A \<open>for\<close> loop whose body may raise: the first exception ends the loop.\<close>

fun for_each :: "('a \<Rightarrow> 's \<Rightarrow> 'e + 's) \<Rightarrow> 'a list \<Rightarrow> 's \<Rightarrow> 'e + 's" where
  "for_each body [] s = Inr s"
| "for_each body (x # xs) s =
     (case body x s of Inl e \<Rightarrow> Inl e | Inr s' \<Rightarrow> for_each body xs s')"

text \<open>
  What one pass of a detection loop leaves for one subject: \<open>Skipped\<close> when the loop
  \<open>continue\<close>s without setting any field, \<open>Unsaved\<close> when the lick fields are set
  but \<open>save_filtered_data\<close> is not reached, \<open>Saved\<close> when it is.  A report of
  zero events is \<open>Saved [] []\<close> (an output group with empty lick arrays and
  \<open>num_licks = 0\<close>); \<open>Skipped\<close> is no report at all.  \<open>lick_indices\<close> and
  \<open>lick_times\<close> list what an outcome carries, which is nothing for \<open>Skipped\<close>.
\<close>

datatype 'i outcome = Skipped | Unsaved "'i list" "real list" | Saved "'i list" "real list"

fun lick_indices :: "'i outcome \<Rightarrow> 'i list" where
  "lick_indices Skipped = []"
| "lick_indices (Unsaved is ts) = is"
| "lick_indices (Saved is ts) = is"

fun lick_times :: "'i outcome \<Rightarrow> real list" where
  "lick_times Skipped = []"
| "lick_times (Unsaved is ts) = ts"
| "lick_times (Saved is ts) = ts"

section \<open>Acquisition and storage (recording/recorder.py, utils/state.py)\<close>

subsection \<open>Constants and the stored file\<close>

definition HISTORY_SIZE :: nat where
  "HISTORY_SIZE = 100"

definition SERIAL_NUMBER_SENSOR_MAP :: "(string \<times> nat list) list" where
  "SERIAL_NUMBER_SENSOR_MAP =
     [(''FT232H0'', [1, 2, 3, 7, 8, 9]),
      (''FT232H1'', [4, 5, 6, 10, 11, 12]),
      (''FT232H2'', [13, 14, 15, 19, 20, 21]),
      (''FT232H3'', [16, 17, 18, 22, 23, 24])]"

text \<open>\<open>SERIAL_NUMBER_SENSOR_MAP.get(sn, [])\<close>\<close>

definition sensors_of :: "string \<Rightarrow> nat list" where
  "sensors_of sn = (case map_of SERIAL_NUMBER_SENSOR_MAP sn of None \<Rightarrow> [] | Some l \<Rightarrow> l)"

text \<open>
  An HDF5 dataset is a scalar, a float array or an integer array.  A sensor group maps
  dataset names to datasets; the file maps a board serial number \<open>sn\<close> (the group
  \<open>board_{sn}\<close>) and a sensor id (its subgroup \<open>sensor_{id}\<close>) to the sensor group.
  A file that does not exist yet is the empty map: opening it raises in the source, the
  first group lookup raises here.
\<close>

datatype h5data = Num real | Floats "real list" | Ints "int list"

type_synonym h5group = "string \<rightharpoonup> h5data"

type_synonym h5file = "string \<rightharpoonup> (nat \<rightharpoonup> h5group)"

text \<open>\<open>d[a][b]\<close> on a dictionary of dictionaries; \<open>None\<close> stands for the KeyError.\<close>

definition lookup2 :: "('a \<rightharpoonup> ('b \<rightharpoonup> 'c)) \<Rightarrow> 'a \<Rightarrow> 'b \<Rightarrow> 'c option" where
  "lookup2 m a b = (case m a of None \<Rightarrow> None | Some g \<Rightarrow> g b)"

text \<open>\<open>d[a][b] = v\<close> where \<open>d[a]\<close> exists.\<close>

definition update2 :: "('a \<rightharpoonup> ('b \<rightharpoonup> 'c)) \<Rightarrow> 'a \<Rightarrow> 'b \<Rightarrow> 'c \<Rightarrow> ('a \<rightharpoonup> ('b \<rightharpoonup> 'c))" where
  "update2 m a b v = (case m a of None \<Rightarrow> m | Some g \<Rightarrow> m(a \<mapsto> g(b \<mapsto> v)))"

text \<open>\<open>deque(maxlen=n).append(x)\<close>: the oldest element leaves a full deque.\<close>

definition deque_append :: "nat \<Rightarrow> 'a list \<Rightarrow> 'a \<Rightarrow> 'a list" where
  "deque_append maxlen q x = (let q' = q @ [x] in drop (length q' - maxlen) q')"

text \<open>
  \<open>dset.resize((n,))\<close> on a one-dimensional resizable dataset (new cells hold the fill
  value 0), and \<open>dset[a:b] = values\<close>, which needs as many values as the slice selects
  (a single value is broadcast).
\<close>

definition resize :: "nat \<Rightarrow> 'a::zero list \<Rightarrow> 'a list" where
  "resize n xs = take n xs @ replicate (n - length xs) 0"

definition write_slice :: "nat \<Rightarrow> nat \<Rightarrow> 'a list \<Rightarrow> 'a list \<Rightarrow> py_error + 'a list" where
  "write_slice a b vs xs =
     (let b' = min b (length xs); a' = min a b'
      in if length vs = b' - a' then Inr (take a' xs @ vs @ drop b' xs)
         else if length vs = 1 then Inr (take a' xs @ replicate (b' - a') (hd vs) @ drop b' xs)
         else Inl TypeError)"

subsection \<open>The recorder\<close>

text \<open>
  The fields of \<open>SensorRecorder\<close>; \<open>controllers\<close> holds the keys of the controllers
  dictionary in iteration order, and \<open>h5\<close> the contents of the file \<open>self.filename\<close>.
\<close>

record recorder =
  controllers :: "string list"
  recording :: bool
  loop_counter :: nat
  board_time_data :: "string \<rightharpoonup> (nat \<rightharpoonup> real list)"
  board_cap_data :: "string \<rightharpoonup> (nat \<rightharpoonup> int list)"
  h5 :: h5file

text \<open>\<open>__init__\<close>: an empty deque for every sensor of every board.\<close>

definition init_recorder :: "string list \<Rightarrow> recorder" where
  "init_recorder ctrls =
     \<lparr>controllers = ctrls, recording = False, loop_counter = 0,
      board_time_data = (\<lambda>sn. if sn \<in> set ctrls
         then Some (\<lambda>sensor. if sensor \<in> set (sensors_of sn) then Some [] else None) else None),
      board_cap_data = (\<lambda>sn. if sn \<in> set ctrls
         then Some (\<lambda>sensor. if sensor \<in> set (sensors_of sn) then Some [] else None) else None),
      h5 = Map.empty\<rparr>"

text \<open>\<open>initialize_hdf5_file\<close>: a new file with an empty group per board and sensor.\<close>

definition initialize_hdf5_file :: "recorder \<Rightarrow> recorder" where
  "initialize_hdf5_file s =
     s\<lparr>h5 := (\<lambda>sn. if sn \<in> set (controllers s)
         then Some (\<lambda>sensor. if sensor \<in> set (sensors_of sn) then Some Map.empty else None)
         else None)\<rparr>"

text \<open>
  What \<open>read_sensor_data(sn)\<close> returns in one iteration: the exception it raises, or
  \<open>local_time\<close> and \<open>local_cap\<close> (the serial number it hands back is \<open>sn\<close>).
\<close>

type_synonym reads = "string \<Rightarrow> py_error + real list \<times> int list"

definition read_all :: "string list \<Rightarrow> reads \<Rightarrow> py_error + (real list \<times> int list \<times> string) list" where
  "read_all ctrls rd =
     sequence_err (map (\<lambda>sn. case rd sn of Inl e \<Rightarrow> Inl e
                               | Inr (local_time, local_cap) \<Rightarrow> Inr (local_time, local_cap, sn)) ctrls)"

text \<open>
  The body of \<open>for idx, sensor in enumerate(sensors)\<close>:
  \<^verbatim>\<open>
    self.board_time_data[serial_number][sensor].append(local_time[idx])
    self.board_cap_data[serial_number][sensor].append(local_cap[idx])
  \<close>
\<close>

definition append_sample ::
  "real list \<times> int list \<times> string \<Rightarrow> nat \<times> nat \<Rightarrow> recorder \<Rightarrow> py_error + recorder" where
  "append_sample result entry s =
     (let local_time = fst result; local_cap = fst (snd result);
          serial_number = snd (snd result); idx = fst entry; sensor = snd entry
      in case lookup2 (board_time_data s) serial_number sensor of
           None \<Rightarrow> Inl (KeyError serial_number)
         | Some tq \<Rightarrow>
             if length local_time \<le> idx then Inl IndexError
             else (case lookup2 (board_cap_data s) serial_number sensor of
                     None \<Rightarrow> Inl (KeyError serial_number)
                   | Some cq \<Rightarrow>
                       if length local_cap \<le> idx then Inl IndexError
                       else Inr (s\<lparr>board_time_data :=
                                     update2 (board_time_data s) serial_number sensor
                                       (deque_append HISTORY_SIZE tq (local_time ! idx)),
                                   board_cap_data :=
                                     update2 (board_cap_data s) serial_number sensor
                                       (deque_append HISTORY_SIZE cq (local_cap ! idx))\<rparr>)))"

definition append_board :: "real list \<times> int list \<times> string \<Rightarrow> recorder \<Rightarrow> py_error + recorder" where
  "append_board result s =
     for_each (append_sample result) (enumerate 0 (sensors_of (snd (snd result)))) s"

text \<open>
  The first part of an iteration: one read per board, all results collected, then
  appended to the buffers.  An exception of a read, or of any later step, leaves the
  loop and ends the session; the state it leaves behind is not followed further.
\<close>

definition acquire :: "reads \<Rightarrow> recorder \<Rightarrow> py_error + recorder" where
  "acquire rd s =
     (case read_all (controllers s) rd of
        Inl e \<Rightarrow> Inl e
      | Inr results \<Rightarrow> for_each append_board results s)"

text \<open>
  The body of the loops of \<open>_write_initial_data\<close>: \<open>create_dataset\<close> raises ValueError
  when the name exists.
\<close>

definition write_initial_sensor :: "string \<Rightarrow> nat \<Rightarrow> recorder \<Rightarrow> py_error + recorder" where
  "write_initial_sensor sn sensor s =
     (case lookup2 (h5 s) sn sensor of
        None \<Rightarrow> Inl (KeyError sn)
      | Some grp \<Rightarrow>
          (case lookup2 (board_time_data s) sn sensor of
             None \<Rightarrow> Inl (KeyError sn)
           | Some tq \<Rightarrow>
               if grp ''time_data'' \<noteq> None then Inl ValueError
               else (case lookup2 (board_cap_data s) sn sensor of
                       None \<Rightarrow> Inl (KeyError sn)
                     | Some cq \<Rightarrow>
                         if grp ''cap_data'' \<noteq> None then Inl ValueError
                         else Inr (s\<lparr>h5 := update2 (h5 s) sn sensor
                                      (grp(''time_data'' \<mapsto> Floats tq,
                                             ''cap_data'' \<mapsto> Ints cq))\<rparr>))))"

definition write_initial_data :: "recorder \<Rightarrow> py_error + recorder" where
  "write_initial_data s =
     for_each (\<lambda>sn. for_each (write_initial_sensor sn) (sensors_of sn)) (controllers s) s"

text \<open>
  The body of the loops of \<open>_append_data\<close>, with
  \<open>tmp_ctr = self.loop_counter - HISTORY_SIZE\<close> and \<open>new_size = tmp_ctr + HISTORY_SIZE\<close>
  (the method runs only when the counter is a positive multiple of \<open>HISTORY_SIZE\<close>, so
  \<open>tmp_ctr\<close> is never negative and the difference of naturals is that of the source):
  both datasets are resized, then both slices \<open>[tmp_ctr:new_size]\<close> are written.
\<close>

definition append_sensor :: "string \<Rightarrow> nat \<Rightarrow> recorder \<Rightarrow> py_error + recorder" where
  "append_sensor sn sensor s =
     (let tmp_ctr = loop_counter s - HISTORY_SIZE; new_size = tmp_ctr + HISTORY_SIZE
      in case lookup2 (h5 s) sn sensor of
           None \<Rightarrow> Inl (KeyError sn)
         | Some grp \<Rightarrow>
            (case (grp ''time_data'', grp ''cap_data'') of
               (Some (Floats ts), Some (Ints cs)) \<Rightarrow>
                 (case lookup2 (board_time_data s) sn sensor of
                    None \<Rightarrow> Inl (KeyError sn)
                  | Some tq \<Rightarrow>
                     (case write_slice tmp_ctr new_size tq (resize new_size ts) of
                        Inl e \<Rightarrow> Inl e
                      | Inr ts' \<Rightarrow>
                         (case lookup2 (board_cap_data s) sn sensor of
                            None \<Rightarrow> Inl (KeyError sn)
                          | Some cq \<Rightarrow>
                             (case write_slice tmp_ctr new_size cq (resize new_size cs) of
                                Inl e \<Rightarrow> Inl e
                              | Inr cs' \<Rightarrow>
                                  Inr (s\<lparr>h5 := update2 (h5 s) sn sensor
                                         (grp(''time_data'' \<mapsto> Floats ts',
                                                ''cap_data'' \<mapsto> Ints cs'))\<rparr>)))))
             | (None, _) \<Rightarrow> Inl (KeyError ''time_data'')
             | (_, None) \<Rightarrow> Inl (KeyError ''cap_data'')
             | _ \<Rightarrow> Inl TypeError))"

definition append_data :: "recorder \<Rightarrow> py_error + recorder" where
  "append_data s =
     for_each (\<lambda>sn. for_each (append_sensor sn) (sensors_of sn)) (controllers s) s"

text \<open>
  The flush decision of an iteration, taken after the samples were appended and before
  the counter is incremented:
  \<^verbatim>\<open>
    if self.loop_counter == HISTORY_SIZE:
        self._write_initial_data()
    elif self.loop_counter > 0 and self.loop_counter % HISTORY_SIZE == 0:
        self._append_data()
  \<close>
\<close>

definition flush :: "recorder \<Rightarrow> py_error + recorder" where
  "flush s =
     (if loop_counter s = HISTORY_SIZE then write_initial_data s
      else if loop_counter s > 0 \<and> loop_counter s mod HISTORY_SIZE = 0 then append_data s
      else Inr s)"

definition iteration :: "reads \<Rightarrow> recorder \<Rightarrow> py_error + recorder" where
  "iteration rd s =
     (case acquire rd s of
        Inl e \<Rightarrow> Inl e
      | Inr s1 \<Rightarrow>
          (case flush s1 of
             Inl e \<Rightarrow> Inl e
           | Inr s2 \<Rightarrow> Inr (s2\<lparr>loop_counter := loop_counter s2 + 1\<rparr>)))"

definition stop :: "recorder \<Rightarrow> recorder" where
  "stop s = s\<lparr>recording := False\<rparr>"

text \<open>
  \<open>while self.recording\<close>, driven by a schedule: one entry per iteration, saying
  whether another task calls \<open>stop()\<close> while the loop is suspended in
  \<open>await asyncio.sleep(0)\<close> at the head of the body, and what the boards return.  The
  schedule is the fuel of the loop: when it is used up while \<open>recording\<close> still holds,
  the state reached so far is returned with \<open>recording = True\<close>.  After the loop the
  method only logs.
\<close>

fun record_loop :: "(bool \<times> reads) list \<Rightarrow> recorder \<Rightarrow> py_error + recorder" where
  "record_loop [] s = Inr s"
| "record_loop (step # rest) s =
     (if recording s then
        (case iteration (snd step) (if fst step then stop s else s) of
           Inl e \<Rightarrow> Inl e
         | Inr s' \<Rightarrow> record_loop rest s')
      else Inr s)"

definition record_sensors :: "(bool \<times> reads) list \<Rightarrow> recorder \<Rightarrow> py_error + recorder" where
  "record_sensors schedule s =
     record_loop schedule (initialize_hdf5_file (s\<lparr>recording := True, loop_counter := 0\<rparr>))"

text \<open>The samples a sensor has on disk: the contents of its two arrays, if they exist.\<close>

definition time_on_disk :: "recorder \<Rightarrow> string \<Rightarrow> nat \<Rightarrow> real list" where
  "time_on_disk s sn sensor =
     (case lookup2 (h5 s) sn sensor of
        None \<Rightarrow> []
      | Some grp \<Rightarrow> (case grp ''time_data'' of Some (Floats ts) \<Rightarrow> ts | _ \<Rightarrow> []))"

definition cap_on_disk :: "recorder \<Rightarrow> string \<Rightarrow> nat \<Rightarrow> int list" where
  "cap_on_disk s sn sensor =
     (case lookup2 (h5 s) sn sensor of
        None \<Rightarrow> []
      | Some grp \<Rightarrow> (case grp ''cap_data'' of Some (Ints cs) \<Rightarrow> cs | _ \<Rightarrow> []))"

text \<open>The samples a sensor holds in its ring buffers.\<close>

definition time_buffer :: "recorder \<Rightarrow> string \<Rightarrow> nat \<Rightarrow> real list" where
  "time_buffer s sn sensor =
     (case lookup2 (board_time_data s) sn sensor of None \<Rightarrow> [] | Some q \<Rightarrow> q)"

definition cap_buffer :: "recorder \<Rightarrow> string \<Rightarrow> nat \<Rightarrow> int list" where
  "cap_buffer s sn sensor =
     (case lookup2 (board_cap_data s) sn sensor of None \<Rightarrow> [] | Some q \<Rightarrow> q)"

text \<open>
  The values the reads of a run deliver for channel \<open>idx\<close> of board \<open>sn\<close>, and reads
  that succeed with at least one value per sensor of every connected board.
\<close>

definition time_samples :: "reads list \<Rightarrow> string \<Rightarrow> nat \<Rightarrow> real list" where
  "time_samples rds sn idx = map (\<lambda>rd. fst (projr (rd sn)) ! idx) rds"

definition cap_samples :: "reads list \<Rightarrow> string \<Rightarrow> nat \<Rightarrow> int list" where
  "cap_samples rds sn idx = map (\<lambda>rd. snd (projr (rd sn)) ! idx) rds"

definition good_reads :: "string list \<Rightarrow> reads \<Rightarrow> bool" where
  "good_reads ctrls rd =
     list_all (\<lambda>sn. case rd sn of
                      Inl e \<Rightarrow> False
                    | Inr r \<Rightarrow> length (sensors_of sn) \<le> length (fst r) \<and>
                               length (sensors_of sn) \<le> length (snd r)) ctrls"

subsection \<open>Views of the recorder state used in the proofs\<close>

text \<open>
  What the recorder keeps for one sensor (its two buffers and its group in the file),
  and the part of the state shared by all sensors.
\<close>

definition slot :: "recorder \<Rightarrow> string \<times> nat \<Rightarrow> real list option \<times> int list option \<times> h5group option" where
  "slot s k =
     (lookup2 (board_time_data s) (fst k) (snd k),
      lookup2 (board_cap_data s) (fst k) (snd k),
      lookup2 (h5 s) (fst k) (snd k))"

definition frame :: "recorder \<Rightarrow> string list \<times> bool \<times> nat" where
  "frame s = (controllers s, recording s, loop_counter s)"

text \<open>The sensors of the connected boards, as (serial number, sensor id) pairs.\<close>

definition sensor_keys :: "string list \<Rightarrow> (string \<times> nat) list" where
  "sensor_keys ctrls = concat (map (\<lambda>sn. map (Pair sn) (sensors_of sn)) ctrls)"

text \<open>The last \<open>n\<close> elements of a list, and what a sensor has on disk after \<open>k\<close> iterations.\<close>

definition lastn :: "nat \<Rightarrow> 'a list \<Rightarrow> 'a list" where
  "lastn n xs = drop (length xs - n) xs"

definition flushed :: "nat \<Rightarrow> 'a list \<Rightarrow> 'a list" where
  "flushed k xs = take (HISTORY_SIZE * ((k - 1) div HISTORY_SIZE)) (drop 1 xs)"

text \<open>
  A sensor's slot when the counter is \<open>k\<close>: the buffers hold the last \<open>HISTORY_SIZE\<close>
  of the samples appended so far, and the arrays on disk, created once the counter has
  passed \<open>HISTORY_SIZE\<close>, hold the flushed part of the samples counted so far.
\<close>

definition slot_holds ::
  "nat \<Rightarrow> real list \<Rightarrow> int list \<Rightarrow> real list \<Rightarrow> int list \<Rightarrow>
   real list option \<times> int list option \<times> h5group option \<Rightarrow> bool" where
  "slot_holds k tbuf cbuf tdisk cdisk v =
     (case v of
        (Some tq, Some cq, Some grp) \<Rightarrow>
           tq = lastn HISTORY_SIZE tbuf \<and> cq = lastn HISTORY_SIZE cbuf \<and>
           grp ''time_data'' =
             (if k \<le> HISTORY_SIZE then None else Some (Floats (flushed k tdisk))) \<and>
           grp ''cap_data'' =
             (if k \<le> HISTORY_SIZE then None else Some (Ints (flushed k cdisk)))
      | _ \<Rightarrow> False)"

text \<open>The state of the recorder after the reads \<open>rds\<close>: the counter is their number and
  every sensor's slot holds the samples read for it.\<close>

definition sensor_inv :: "reads list \<Rightarrow> recorder \<Rightarrow> string \<Rightarrow> nat \<Rightarrow> bool" where
  "sensor_inv rds s sn idx =
     slot_holds (length rds) (time_samples rds sn idx) (cap_samples rds sn idx)
       (time_samples rds sn idx) (cap_samples rds sn idx) (slot s (sn, sensors_of sn ! idx))"

definition recorder_inv :: "string list \<Rightarrow> reads list \<Rightarrow> recorder \<Rightarrow> bool" where
  "recorder_inv ctrls rds s =
     (controllers s = ctrls \<and> loop_counter s = length rds \<and>
      list_all (\<lambda>sn. list_all (sensor_inv rds s sn) [0..<length (sensors_of sn)]) ctrls)"

text \<open>The effect on one sensor's slot of appending a sample, creating the arrays and
  appending a batch to them.\<close>

fun appended ::
  "real \<Rightarrow> int \<Rightarrow> real list option \<times> int list option \<times> h5group option \<Rightarrow>
   real list option \<times> int list option \<times> h5group option" where
  "appended t c (Some tq, Some cq, g) =
     (Some (deque_append HISTORY_SIZE tq t), Some (deque_append HISTORY_SIZE cq c), g)"
| "appended t c v = v"

fun created ::
  "real list option \<times> int list option \<times> h5group option \<Rightarrow>
   real list option \<times> int list option \<times> h5group option" where
  "created (Some tq, Some cq, Some grp) =
     (Some tq, Some cq, Some (grp(''time_data'' \<mapsto> Floats tq, ''cap_data'' \<mapsto> Ints cq)))"
| "created v = v"

fun extended ::
  "real list option \<times> int list option \<times> h5group option \<Rightarrow>
   real list option \<times> int list option \<times> h5group option" where
  "extended (Some tq, Some cq, Some grp) =
     (case (grp ''time_data'', grp ''cap_data'') of
        (Some (Floats ts), Some (Ints cs)) \<Rightarrow>
          (Some tq, Some cq,
           Some (grp(''time_data'' \<mapsto> Floats (ts @ tq), ''cap_data'' \<mapsto> Ints (cs @ cq))))
      | _ \<Rightarrow> (Some tq, Some cq, Some grp))"
| "extended v = v"

subsection \<open>Sessions\<close>

text \<open>
  The state in which the loop of \<open>record_sensors\<close> starts on a newly built recorder, and
  a schedule in which \<open>stop()\<close> is first called while the loop is suspended at the head
  of the iteration that performs the read \<open>rd\<close>, after the iterations reading \<open>rds\<close>.
\<close>

definition session_start :: "string list \<Rightarrow> recorder" where
  "session_start ctrls =
     initialize_hdf5_file ((init_recorder ctrls)\<lparr>recording := True, loop_counter := 0\<rparr>)"

definition stopped_after :: "reads list \<Rightarrow> reads \<Rightarrow> (bool \<times> reads) list \<Rightarrow> (bool \<times> reads) list" where
  "stopped_after rds rd rest = map (Pair False) rds @ (True, rd) # rest"

text \<open>
  Of the \<open>k\<close> samples \<open>xs\<close> appended for a sensor, those appended after the most recent
  flush (all of them when no flush has happened yet).
\<close>

definition unflushed :: "nat \<Rightarrow> 'a list \<Rightarrow> 'a list" where
  "unflushed k xs =
     drop (if k \<le> HISTORY_SIZE then 0
           else HISTORY_SIZE * ((k - 1) div HISTORY_SIZE) + 1) xs"

text \<open>An example read: every board returns the same six timestamps and values.\<close>

definition example_read :: reads where
  "example_read sn = Inr ([1, 2, 3, 4, 5, 6], [10, 20, 30, 40, 50, 60])"








subsection \<open>Cycle metadata (\<open>write_sensor_metadata\<close>)\<close>

text \<open>\<open>str(n)\<close> for a non-negative integer, as the f-strings of the source format it.\<close>

fun str_nat :: "nat \<Rightarrow> string" where
  "str_nat n =
     (if n < 10 then [''0123456789'' ! n]
      else str_nat (n div 10) @ [''0123456789'' ! (n mod 10)])"

declare str_nat.simps [simp del]

text \<open>
  \<open>name if cycle == 0 else f"{name}{cycle}"\<close>; the cycle number counts the times a
  sensor has been started, so it is never negative.
\<close>

definition cycle_name :: "string \<Rightarrow> nat \<Rightarrow> string" where
  "cycle_name name cycle = (if cycle = 0 then name else name @ str_nat cycle)"

text \<open>
  The board of a sensor: the keys of \<open>SERIAL_NUMBER_SENSOR_MAP\<close> selected by the
  boolean list \<open>sn_idx\<close>; \<open>.item()\<close> raises ValueError unless exactly one is selected.
\<close>

definition board_of :: "nat \<Rightarrow> py_error + string" where
  "board_of sensor_id =
     (case map fst (filter (\<lambda>entry. sensor_id \<in> set (snd entry)) SERIAL_NUMBER_SENSOR_MAP) of
        [sn] \<Rightarrow> Inr sn
      | _ \<Rightarrow> Inl ValueError)"

text \<open>
  A timestamp is written only if it is given and the name is not in the group yet; a
  volume or weight is written, replacing what was there, only if it is given and
  positive.
\<close>

definition write_once :: "string \<Rightarrow> real option \<Rightarrow> h5group \<Rightarrow> h5group" where
  "write_once name v grp =
     (case v of
        None \<Rightarrow> grp
      | Some x \<Rightarrow> if grp name = None then grp(name \<mapsto> Num x) else grp)"

definition overwrite_positive :: "string \<Rightarrow> real option \<Rightarrow> h5group \<Rightarrow> h5group" where
  "overwrite_positive name v grp =
     (case v of
        None \<Rightarrow> grp
      | Some x \<Rightarrow> if x > 0 then grp(name \<mapsto> Num x) else grp)"

text \<open>
  \<open>write_sensor_metadata\<close> on the contents of the file: the sensor group is created if
  \<open>group_path not in h5f\<close> (looking up a missing board group raises KeyError), then
  the five fields are written in the order of the source.
\<close>

definition write_sensor_metadata ::
  "nat \<Rightarrow> real option \<Rightarrow> real option \<Rightarrow> real option \<Rightarrow> real option \<Rightarrow> real option \<Rightarrow> nat \<Rightarrow>
   h5file \<Rightarrow> py_error + h5file" where
  "write_sensor_metadata sensor_id start_time stop_time start_vol stop_vol weight cycle h5f =
     (case board_of sensor_id of
        Inl e \<Rightarrow> Inl e
      | Inr sn \<Rightarrow>
          (case (if lookup2 h5f sn sensor_id = None then
                   (case h5f sn of
                      None \<Rightarrow> Inl (KeyError (''board_'' @ sn))
                    | Some board_group \<Rightarrow> Inr (h5f(sn \<mapsto> board_group(sensor_id \<mapsto> Map.empty))))
                 else Inr h5f) of
             Inl e \<Rightarrow> Inl e
           | Inr h5f' \<Rightarrow>
               (case lookup2 h5f' sn sensor_id of
                  None \<Rightarrow> Inl (KeyError (''board_'' @ sn))
                | Some grp \<Rightarrow>
                    Inr (update2 h5f' sn sensor_id
                          (overwrite_positive (cycle_name ''weight'' cycle) weight
                            (overwrite_positive (cycle_name ''stop_vol'' cycle) stop_vol
                              (overwrite_positive (cycle_name ''start_vol'' cycle) start_vol
                                (write_once (cycle_name ''stop_time'' cycle) stop_time
                                  (write_once (cycle_name ''start_time'' cycle) start_time
                                     grp)))))))))"

text \<open>The dataset stored under a name in the group of a sensor, if any.\<close>

definition field :: "h5file \<Rightarrow> string \<Rightarrow> nat \<Rightarrow> string \<Rightarrow> h5data option" where
  "field h5f sn sensor_id name =
     (case lookup2 h5f sn sensor_id of None \<Rightarrow> None | Some grp \<Rightarrow> grp name)"

section \<open>Trace reorganizer (\<open>filter_data\<close>, data_analysis.py)\<close>

text \<open>
  \<open>sensor_data\<close>: the dictionary read from one sensor group, keys in iteration order.
  A key is the name of a link of the file, as the bytes of its UTF-8 encoding.
\<close>

type_synonym sensor_data = "(string \<times> h5data) list"

text \<open>
  The pattern \<open>\d+\<close> and the conversion \<open>int(m.group(1))\<close> belong to the interpreter:
  \<open>\d\<close> matches every decimal digit of its Unicode tables, and \<open>int\<close> raises
  ValueError on a run with more digits than its limit (4300 unless configured).  A
  \<open>digit_reader\<close> stands for both: \<open>None\<close> when the text is not a non-empty run of
  decimal digits, otherwise what \<open>int\<close> does with the run.
\<close>

type_synonym digit_reader = "string \<Rightarrow> (py_error + int) option"

definition is_digit :: "char \<Rightarrow> bool" where
  "is_digit c = (c \<in> set ''0123456789'')"

text \<open>The number written by a string of the digits \<open>0\<close> to \<open>9\<close>.\<close>

definition int_of_digits :: "string \<Rightarrow> int" where
  "int_of_digits ds = int (foldl (\<lambda>a c. 10 * a + (of_char c - 48)) 0 ds)"

text \<open>
  A reader agrees with decimal notation on the runs of \<open>0\<close> to \<open>9\<close> of at most
  \<open>limit\<close> digits, as every interpreter does for its limit.
\<close>

definition reads_ascii :: "nat \<Rightarrow> digit_reader \<Rightarrow> bool" where
  "reads_ascii limit dg =
     (\<forall>ds. ds \<noteq> [] \<and> list_all is_digit ds \<and> length ds \<le> limit \<longrightarrow>
           dg ds = Some (Inr (int_of_digits ds)))"

text \<open>
  The reader of an interpreter with the default limit, on keys made of ASCII characters
  (a key with other characters is no run of digits for it).
\<close>

definition ascii_int :: digit_reader where
  "ascii_int ds =
     (if ds \<noteq> [] \<and> list_all is_digit ds then
        Some (if length ds \<le> 4300 then Inr (int_of_digits ds) else Inl ValueError)
      else None)"

text \<open>
  \<open>re.compile(r'^start_time(\d+)?$').match(k)\<close> and
  \<open>num = int(m.group(1)) if m.group(1) else -1\<close>: the key is \<open>start_time\<close>, then
  an optional run of digits, then the end of the string or a newline that ends the
  string.  \<open>None\<close> when the key does not match, \<open>Some (Inl e)\<close> when it matches and
  \<open>int\<close> raises.
\<close>

definition start_time_num :: "digit_reader \<Rightarrow> string \<Rightarrow> (py_error + int) option" where
  "start_time_num dg k =
     (if prefix ''start_time'' k then
        (let rest = drop 10 k;
             ds = (if rest \<noteq> [] \<and> last rest = CHR 0x0A then butlast rest else rest)
         in if ds = [] then Some (Inr (- 1)) else dg ds)
      else None)"

text \<open>
  The dictionary \<open>matches\<close> as the list of its assignments \<open>matches[num] = k\<close>, in
  order; a later assignment to the same number replaces an earlier one.  The loop over
  the keys ends at the first key whose number \<open>int\<close> refuses.  \<open>last_start\<close> is
  \<open>matches[num]\<close> for the greatest number.
\<close>

definition start_matches :: "digit_reader \<Rightarrow> sensor_data \<Rightarrow> py_error + (int \<times> string) list" where
  "start_matches dg sd =
     sequence_err
       (concat (map (\<lambda>k. case start_time_num dg k of
                            None \<Rightarrow> []
                          | Some (Inl e) \<Rightarrow> [Inl e]
                          | Some (Inr n) \<Rightarrow> [Inr (n, k)])
                    (map fst sd)))"

definition last_start :: "(int \<times> string) list \<Rightarrow> string" where
  "last_start ms =
     (let num = Max (set (map fst ms)) in snd (last (filter (\<lambda>m. fst m = num) ms)))"

text \<open>
  \<open>sensor_data['time_data'][0]\<close> and \<open>sensor_data['time_data'][-1]\<close>: KeyError
  without the dataset, IndexError on an empty array or a scalar.
\<close>

definition first_time :: "sensor_data \<Rightarrow> py_error + h5data" where
  "first_time sd =
     (case map_of sd ''time_data'' of
        None \<Rightarrow> Inl (KeyError ''time_data'')
      | Some (Floats ts) \<Rightarrow> if ts = [] then Inl IndexError else Inr (Num (hd ts))
      | Some (Ints ns) \<Rightarrow> if ns = [] then Inl IndexError else Inr (Num (real_of_int (hd ns)))
      | Some (Num x) \<Rightarrow> Inl IndexError)"

definition last_time :: "sensor_data \<Rightarrow> py_error + h5data" where
  "last_time sd =
     (case map_of sd ''time_data'' of
        None \<Rightarrow> Inl (KeyError ''time_data'')
      | Some (Floats ts) \<Rightarrow> if ts = [] then Inl IndexError else Inr (Num (last ts))
      | Some (Ints ns) \<Rightarrow> if ns = [] then Inl IndexError else Inr (Num (real_of_int (last ns)))
      | Some (Num x) \<Rightarrow> Inl IndexError)"

text \<open>
  Lines 41 to 64 of \<open>filter_data\<close>: the start time, the stop time and whether the
  warning "no start/stop times recorded" was printed.  The lookups of \<open>time_data\<close>
  stand in no \<open>try\<close>, the one in the handler of the missing stop key included.
\<close>

definition resolve_window ::
  "digit_reader \<Rightarrow> sensor_data \<Rightarrow> py_error + h5data \<times> h5data \<times> bool" where
  "resolve_window dg sd =
     (case start_matches dg sd of
        Inl e \<Rightarrow> Inl e
      | Inr matches \<Rightarrow>
          if matches \<noteq> [] then
            (case map_of sd (last_start matches) of
               None \<Rightarrow> Inl (KeyError (last_start matches))
             | Some start_time \<Rightarrow>
                 (case map_of sd (''stop'' @ drop 5 (last_start matches)) of
                    Some stop_time \<Rightarrow> Inr (start_time, stop_time, False)
                  | None \<Rightarrow>
                      (case last_time sd of
                         Inl e \<Rightarrow> Inl e
                       | Inr stop_time \<Rightarrow> Inr (start_time, stop_time, False))))
          else
            (case first_time sd of
               Inl e \<Rightarrow> Inl e
             | Inr start_time \<Rightarrow>
                 (case last_time sd of
                    Inl e \<Rightarrow> Inl e
                  | Inr stop_time \<Rightarrow> Inr (start_time, stop_time, True))))"

text \<open>\<open>d[key] = v\<close> on a dictionary kept as a list.\<close>

definition dict_set :: "('k \<times> 'v) list \<Rightarrow> 'k \<Rightarrow> 'v \<Rightarrow> ('k \<times> 'v) list" where
  "dict_set d key v =
     (if key \<in> set (map fst d) then map (\<lambda>e. if fst e = key then (key, v) else e) d
      else d @ [(key, v)])"

text \<open>
  Lines 85 to 88 of \<open>filter_data\<close>, inside the loop over the sensors and inside no
  \<open>try\<close>:
  \<^verbatim>\<open>
    if 'stop_vol' in sensor_data.keys():
        sensor_data['consumed_vol'] = sensor_data['start_vol'] - sensor_data['stop_vol']
  \<close>
  The recorder writes volumes as scalars; the difference of two scalars is modelled,
  any other operands are mapped to TypeError.
\<close>

definition volume_step :: "sensor_data \<Rightarrow> py_error + sensor_data" where
  "volume_step sd =
     (if ''stop_vol'' \<in> set (map fst sd) then
        (case map_of sd ''start_vol'' of
           None \<Rightarrow> Inl (KeyError ''start_vol'')
         | Some a \<Rightarrow>
             (case map_of sd ''stop_vol'' of
                None \<Rightarrow> Inl (KeyError ''stop_vol'')
              | Some b \<Rightarrow>
                  (case (a, b) of
                     (Num x, Num y) \<Rightarrow> Inr (dict_set sd ''consumed_vol'' (Num (x - y)))
                   | _ \<Rightarrow> Inl TypeError)))
      else Inr sd)"

text \<open>
  The second \<open>try\<close> of \<open>save_filtered_data\<close>: the dataset written to the subject's
  group and the line appended to the log file.
\<close>

definition save_consumed_vol :: "sensor_data \<Rightarrow> (string \<times> h5data) list \<times> string list" where
  "save_consumed_vol data =
     (case map_of data ''consumed_vol'' of
        None \<Rightarrow> ([], [''Caught KeyError consumed_vol, volumes not recorded''])
      | Some v \<Rightarrow> ([(''consumed_vol'', v)], []))"
section \<open>Threshold-scan detection (\<open>basic_algorithm\<close>, data_analysis.py)\<close>

subsection \<open>numpy helpers\<close>

text \<open>\<open>np.unique\<close>: the sorted distinct values.\<close>

definition np_unique :: "int list \<Rightarrow> int list" where
  "np_unique trace = sort (remdups trace)"

text \<open>\<open>np.diff(x) = x[1:] - x[:-1]\<close>\<close>

definition np_diff :: "int list \<Rightarrow> int list" where
  "np_diff xs = map2 (\<lambda>b a. b - a) (tl xs) (butlast xs)"

text \<open>\<open>np.argmin\<close>: the first position of the minimum (of a non-empty array).\<close>

definition np_argmin :: "int list \<Rightarrow> nat" where
  "np_argmin xs = length (takeWhile (\<lambda>x. x \<noteq> Min (set xs)) xs)"

subsection \<open>One threshold\<close>

definition max_lick_time :: real where
  "max_lick_time = 1 / 6"

text \<open>\<open>thresholds = (unique_vals[:-1] + unique_vals[1:]) / 2.0\<close>\<close>

definition thresholds_of :: "int list \<Rightarrow> real list" where
  "thresholds_of unique_vals =
     map2 (\<lambda>a b. real_of_int (a + b) / 2) (butlast unique_vals) (tl unique_vals)"

text \<open>\<open>(trace < thr).astype(np.int8)\<close>\<close>

definition below :: "real \<Rightarrow> int list \<Rightarrow> bool list" where
  "below thr trace = map (\<lambda>v. real_of_int v < thr) trace"

definition as_int8 :: "bool list \<Rightarrow> int list" where
  "as_int8 bs = map (\<lambda>b. if b then 1 else 0) bs"

text \<open>
  Run starts and ends below the threshold:
  \<^verbatim>\<open>
    peak_trans = np.diff((trace < thr).astype(np.int8))
    peak_starts = np.where(peak_trans == 1)[0] + 1
    peak_ends = np.where(peak_trans == -1)[0]
    if trace[0] < thr:  peak_starts = np.r_[0, peak_starts]
    if trace[-1] < thr: peak_ends = np.r_[peak_ends, len(trace) - 1]
  \<close>
  as functions of the boolean array \<open>trace < thr\<close> (non-empty where they are used).
\<close>

definition peak_starts_of :: "bool list \<Rightarrow> nat list" where
  "peak_starts_of bs =
     (let peak_trans = np_diff (as_int8 bs);
          peak_starts = map Suc (np_where (map (\<lambda>d. d = 1) peak_trans))
      in if hd bs then 0 # peak_starts else peak_starts)"

definition peak_ends_of :: "bool list \<Rightarrow> nat list" where
  "peak_ends_of bs =
     (let peak_trans = np_diff (as_int8 bs);
          peak_ends = np_where (map (\<lambda>d. d = - 1) peak_trans)
      in if last bs then peak_ends @ [length bs - 1] else peak_ends)"

text \<open>
  The depth loop, with \<open>np.delete(good_peaks, i_peak, 0)\<close> written out:
  \<^verbatim>\<open>
    i_peak = 0
    while i_peak < good_peaks.size:
        p_idx = good_peaks[i_peak]
        ps_ = int(peak_starts[p_idx]); pe_ = int(peak_ends[p_idx])
        peak_trace = trace[ps_:pe_+1]
        if np.count_nonzero(peak_trace < depth_thr) == 0:
            good_peaks = np.delete(good_peaks, i_peak, 0)
        else:
            i_peak += 1
  \<close>
\<close>

definition deep_enough :: "int list \<Rightarrow> real \<Rightarrow> nat list \<Rightarrow> nat list \<Rightarrow> nat \<Rightarrow> bool" where
  "deep_enough trace depth_thr peak_starts peak_ends p_idx =
     (let ps = peak_starts ! p_idx; pe = peak_ends ! p_idx;
          peak_trace = py_slice trace ps (pe + 1)
      in length (filter (\<lambda>v. real_of_int v < depth_thr) peak_trace) \<noteq> 0)"

function depth_loop ::
  "int list \<Rightarrow> real \<Rightarrow> nat list \<Rightarrow> nat list \<Rightarrow> nat list \<Rightarrow> nat \<Rightarrow> nat list" where
  "depth_loop trace depth_thr peak_starts peak_ends good_peaks i_peak =
     (if i_peak < length good_peaks then
        (if \<not> deep_enough trace depth_thr peak_starts peak_ends (good_peaks ! i_peak)
         then depth_loop trace depth_thr peak_starts peak_ends
                (take i_peak good_peaks @ drop (Suc i_peak) good_peaks) i_peak
         else depth_loop trace depth_thr peak_starts peak_ends good_peaks (i_peak + 1))
      else good_peaks)"
  by pat_completeness auto
termination
  by (relation "measure (\<lambda>(trace, depth_thr, peak_starts, peak_ends, good_peaks, i_peak).
                  length good_peaks - i_peak)") auto

declare depth_loop.simps [simp del]

text \<open>
  One entry of \<open>temp_peak_bins\<close>: the sample of minimum capacitance within the run, or
  the initial \<open>-1\<close> when the slice is empty.
\<close>

definition peak_bin :: "int list \<Rightarrow> nat \<Rightarrow> nat \<Rightarrow> int" where
  "peak_bin trace ps pe =
     (let peak_trace = py_slice trace ps (pe + 1)
      in if peak_trace = [] then - 1 else int (ps + np_argmin peak_trace))"

text \<open>
  The body of \<open>for i_thr in range(2, len(thresholds))\<close>: the value of
  \<open>peak_bins[i_thr]\<close>; \<open>n_peaks[i_thr]\<close> is its length on every path.  \<open>trace[0]\<close>
  raises IndexError on an empty trace.
\<close>

definition scan_threshold ::
  "int list \<Rightarrow> real list \<Rightarrow> real list \<Rightarrow> nat \<Rightarrow> py_error + int list" where
  "scan_threshold trace tms thresholds i_thr =
     (if trace = [] then Inl IndexError
      else
        let thr = thresholds ! i_thr;
            peak_starts = peak_starts_of (below thr trace);
            peak_ends = peak_ends_of (below thr trace)
        in if peak_starts = [] \<or> peak_ends = [] then Inr []
           else
             let m = min (length peak_starts) (length peak_ends);
                 peak_starts = take m peak_starts;
                 peak_ends = take m peak_ends
             in case take_idx tms peak_ends of Inl e \<Rightarrow> Inl e | Inr t_ends \<Rightarrow>
                (case take_idx tms peak_starts of Inl e \<Rightarrow> Inl e | Inr t_starts \<Rightarrow>
                   (let peak_t = map2 (\<lambda>e s. e - s) t_ends t_starts;
                        good_peaks = np_where (map (\<lambda>d. d < max_lick_time) peak_t)
                    in if good_peaks = [] then Inr []
                       else
                         let depth_thr = thresholds ! (i_thr - 2);
                             good_peaks =
                               depth_loop trace depth_thr peak_starts peak_ends good_peaks 0
                         in if good_peaks = [] then Inr []
                            else Inr (map (\<lambda>p_idx. peak_bin trace (peak_starts ! p_idx)
                                                  (peak_ends ! p_idx)) good_peaks))))"

subsection \<open>All thresholds, one subject\<close>

text \<open>
  The arrays \<open>n_peaks\<close> (initially all nan, here \<open>None\<close>) and \<open>peak_bins\<close>
  (initially all \<open>None\<close>), filled in at \<open>i_thr\<close> by each round.
\<close>

definition scan_step ::
  "int list \<Rightarrow> real list \<Rightarrow> real list \<Rightarrow> nat \<Rightarrow>
   nat option list \<times> int list option list \<Rightarrow> py_error + nat option list \<times> int list option list" where
  "scan_step trace tms thresholds i_thr arrays =
     (case scan_threshold trace tms thresholds i_thr of
        Inl e \<Rightarrow> Inl e
      | Inr bins \<Rightarrow>
          Inr ((fst arrays)[i_thr := Some (length bins)], (snd arrays)[i_thr := Some bins]))"

text \<open>
  \<open>np.nanmax\<close> of a row that is not all nan, and \<open>np.where(row == v)[0][0]\<close>, the
  first index holding a value (IndexError when there is none).
\<close>

definition nanmax :: "nat option list \<Rightarrow> nat" where
  "nanmax row = Max (set (concat (map (\<lambda>x. case x of None \<Rightarrow> [] | Some n \<Rightarrow> [n]) row)))"

definition first_index :: "'a list \<Rightarrow> 'a \<Rightarrow> py_error + nat" where
  "first_index xs v =
     (if v \<in> set xs then Inr (length (takeWhile (\<lambda>x. x \<noteq> v) xs)) else Inl IndexError)"

text \<open>
  One round of the loop over subjects.  When \<open>len(pb_) == 1\<close> the source stores the
  single index as a scalar, \<open>pb_ = int(pb_)\<close>; it is the one-element list here.  This
  follows the numpy releases in which \<open>int\<close> accepts a one-element array; later releases
  raise TypeError at that line, so that a round with exactly one lick raises instead of
  returning.  Timestamps and thresholds are reals and indices unbounded integers where
  the source has doubles and 64-bit integers.
\<close>

definition basic_one :: "int list \<Rightarrow> real list \<Rightarrow> py_error + int outcome" where
  "basic_one trace tms =
     (let unique_vals = np_unique trace
      in if length unique_vals > 3 then
           let thresholds = thresholds_of unique_vals;
               n_peaks = replicate (length thresholds) None;
               peak_bins = replicate (length thresholds) None
           in case for_each (scan_step trace tms thresholds) [2..<length thresholds]
                     (n_peaks, peak_bins) of
                Inl e \<Rightarrow> Inl e
              | Inr (peaks_row, peak_bins) \<Rightarrow>
                  if list_all (\<lambda>x. x = None) peaks_row then Inr Skipped
                  else
                    let max_peaks = nanmax peaks_row
                    in (case first_index peaks_row (Some max_peaks) of
                          Inl e \<Rightarrow> Inl e
                        | Inr i_thr \<Rightarrow>
                            (case peak_bins ! i_thr of
                               None \<Rightarrow> Inl TypeError
                             | Some pb \<Rightarrow>
                                 (case sequence_err (map (py_index tms) pb) of
                                    Inl e \<Rightarrow> Inl e
                                  | Inr lts \<Rightarrow> Inr (Saved pb lts))))
         else Inr Skipped)"

subsection \<open>Well-formed runs\<close>

text \<open>
  Start and end lists describe disjoint runs in increasing order when they pair up, each
  run ends no earlier than it starts, and it ends before every later run starts.
\<close>

fun paired :: "nat list \<Rightarrow> nat list \<Rightarrow> bool" where
  "paired [] [] = True"
| "paired (s # ss) (e # es) = (s \<le> e \<and> list_all (\<lambda>s'. e < s') ss \<and> paired ss es)"
| "paired _ _ = False"

text \<open>Indices that are strictly increasing positions of the trace.\<close>

definition increasing_in :: "nat \<Rightarrow> int list \<Rightarrow> bool" where
  "increasing_in n pb = (sorted_wrt (<) pb \<and> list_all (\<lambda>b. 0 \<le> b \<and> b < int n) pb)"

text \<open>The loop invariant of the scan over thresholds: every filled entry holds such indices.\<close>

definition scan_inv :: "nat \<Rightarrow> nat option list \<times> int list option list \<Rightarrow> bool" where
  "scan_inv n arrays =
     (length (fst arrays) = length (snd arrays) \<and>
      list_all (\<lambda>i. fst arrays ! i \<noteq> None \<longrightarrow>
                   (case snd arrays ! i of None \<Rightarrow> False | Some pb \<Rightarrow> increasing_in n pb))
        [0..<length (fst arrays)])"
section \<open>Envelope-based detection (\<open>hilbert_algorithm\<close>, data_analysis.py)\<close>

subsection \<open>Filtering stage\<close>

text \<open>
  \<open>scipy.signal.filtfilt\<close> is an external library call.  The two zero-phase filters
  \<open>filtfilt(bh, ah, _)\<close> (4th-order 8 Hz high-pass) and \<open>filtfilt(bl, al, _)\<close>
  (8th-order 12 Hz low-pass) are parameters \<open>hp\<close> and \<open>lp\<close>.  The source reads
  \<^verbatim>\<open>
    filtered_data = scs.filtfilt(bh, ah, trace)
    filtered_data = scs.filtfilt(bl, al, filtered_data)
    filtered_data = [scs.filtfilt(bh, ah, filtered_data) for _ in range(6)][-1]
    filtered_data = [scs.filtfilt(bl, al, filtered_data) for _ in range(6)][-1]
  \<close>
  and a list comprehension does not rebind \<open>filtered_data\<close> between its six rounds.
\<close>

definition filter_stage :: "('a \<Rightarrow> 'a) \<Rightarrow> ('a \<Rightarrow> 'a) \<Rightarrow> 'a \<Rightarrow> 'a" where
  "filter_stage hp lp trace =
     (let filtered_data = hp trace;
          filtered_data = lp filtered_data;
          filtered_data = last (map (\<lambda>_. hp filtered_data) [0..<6]);
          filtered_data = last (map (\<lambda>_. lp filtered_data) [0..<6])
      in filtered_data)"

text \<open>
  The filtered signal as the specification words it: the high-pass and the low-pass
  filter, each applied six times in sequence to the raw trace.
\<close>

definition spec_filter_stage :: "('a \<Rightarrow> 'a) \<Rightarrow> ('a \<Rightarrow> 'a) \<Rightarrow> 'a \<Rightarrow> 'a" where
  "spec_filter_stage hp lp trace = (lp ^^ 6) ((hp ^^ 6) trace)"

subsection \<open>Candidates and minimum spacing\<close>

text \<open>\<open>downs = np.where(trace[:-1] > trace[1:] + 15)[0] + 1\<close>\<close>

definition downs :: "int list \<Rightarrow> nat list" where
  "downs trace = map Suc (np_where (map2 (\<lambda>a b. a > b + 15) (butlast trace) (tl trace)))"

text \<open>
  \<open>env_mask = env > 0.261 * np.max(env)\<close>; \<open>np.max\<close> of an empty array raises
  ValueError.
\<close>

definition env_mask :: "real list \<Rightarrow> py_error + bool list" where
  "env_mask env =
     (if env = [] then Inl ValueError
      else Inr (map (\<lambda>e. e > 0.261 * Max (set env)) env))"

text \<open>\<open>candidates = [i for i in downs if env_mask[i]]\<close>; indexing past the mask raises.\<close>

definition candidates :: "nat list \<Rightarrow> bool list \<Rightarrow> py_error + nat list" where
  "candidates ds msk =
     (if list_all (\<lambda>i. i < length msk) ds then Inr (filter (\<lambda>i. msk ! i) ds)
      else Inl IndexError)"

text \<open>
  The deduplication loop:
  \<^verbatim>\<open>
    min_dist = int(0.08 * fs)
    lick_idxs = []
    for idx in candidates:
        if not lick_idxs or (idx - lick_idxs[-1]) > min_dist:
            lick_idxs.append(idx)
  \<close>
\<close>

definition min_dist :: "real \<Rightarrow> int" where
  "min_dist fs = py_int (0.08 * fs)"

definition dedup_step :: "int \<Rightarrow> nat list \<Rightarrow> nat \<Rightarrow> nat list" where
  "dedup_step md lick_idxs idx =
     (if lick_idxs = [] \<or> int idx - int (last lick_idxs) > md then lick_idxs @ [idx]
      else lick_idxs)"

definition dedup :: "int \<Rightarrow> nat list \<Rightarrow> nat list" where
  "dedup md cands = foldl (dedup_step md) [] cands"

subsection \<open>Continuity filter and the per-subject result\<close>

definition max_dist :: "real \<Rightarrow> int" where
  "max_dist fs = py_int (0.5 * fs)"

text \<open>
  The body of \<open>for i, idx in enumerate(lick_idxs)\<close>: whether the candidate at
  position \<open>i\<close> is appended to \<open>lick_idxs_\<close>.  It runs only when
  \<open>len(lick_idxs) \<ge> 3\<close>, so every index read below is in range.
\<close>

definition continuity_keep :: "int \<Rightarrow> nat list \<Rightarrow> nat \<Rightarrow> bool" where
  "continuity_keep mx L i =
     (let gap = (\<lambda>a b. \<bar>int (L ! a) - int (L ! b)\<bar>) in
      if i = 0 then gap i (i + 1) < mx \<and> gap i (i + 2) < 2 * mx
      else if i = length L - 1 then gap i (i - 1) < mx \<and> gap i (i - 2) < 2 * mx
      else if gap i (i - 1) < mx \<and> gap i (i + 1) < mx then True
      else if gap i (i - 1) < mx then (if i = 1 then False else gap i (i - 2) < 2 * mx)
      else if gap i (i + 1) < mx then
        (if i \<ge> length L - 2 then False else gap i (i + 2) < 2 * mx)
      else False)"

definition continuity :: "int \<Rightarrow> nat list \<Rightarrow> nat list" where
  "continuity mx L = map (\<lambda>i. L ! i) (filter (continuity_keep mx L) [0..<length L])"

text \<open>
  One round of the loop of \<open>hilbert_algorithm\<close>.  \<open>hilb\<close> stands for
  \<open>np.abs(scs.hilbert(_))\<close>; the filter design \<open>scs.butter\<close> and the exceptions
  of the scipy calls are outside the model.  \<open>lick_times\<close> is
  \<open>np.array(lick_idxs) / fs\<close> (numpy yields inf or nan where \<open>fs = 0\<close>).
\<close>

definition hilbert_one ::
  "(real list \<Rightarrow> real list) \<Rightarrow> (real list \<Rightarrow> real list) \<Rightarrow> (real list \<Rightarrow> real list) \<Rightarrow>
   real \<Rightarrow> int list \<Rightarrow> py_error + nat outcome" where
  "hilbert_one hp lp hilb fs trace =
     (let filtered_data = filter_stage hp lp (map real_of_int trace);
          env = hilb filtered_data
      in case env_mask env of Inl e \<Rightarrow> Inl e | Inr msk \<Rightarrow>
         (case candidates (downs trace) msk of Inl e \<Rightarrow> Inl e | Inr cands \<Rightarrow>
            (let lick_idxs = dedup (min_dist fs) cands in
             if length lick_idxs < 3 then Inr (Unsaved [] [])
             else let lick_idxs' = continuity (max_dist fs) lick_idxs
                  in Inr (Saved lick_idxs' (map (\<lambda>i. real i / fs) lick_idxs')))))"

text \<open>Two kept indices are \<open>apart\<close> when the later one exceeds the earlier by more than \<open>md\<close>.\<close>

definition apart :: "int \<Rightarrow> nat \<Rightarrow> nat \<Rightarrow> bool" where
  "apart md a b = (a < b \<and> int b - int a > md)"

section \<open>Facts about the numpy helpers\<close>

lemma np_where_sorted: "sorted_wrt (<) (np_where bs)"
  unfolding np_where_def by (rule sorted_wrt_filter) (simp add: sorted_wrt_upt)

lemma np_where_Nil: "np_where [] = []"
  by (simp add: np_where_def)

lemma np_where_Cons: "np_where (b # bs) = (if b then [0] else []) @ map Suc (np_where bs)"
proof -
  have "[0..<Suc (length bs)] = 0 # map Suc [0..<length bs]"
    by (simp add: upt_conv_Cons map_Suc_upt del: upt_Suc)
  then show ?thesis
    by (simp add: np_where_def filter_map comp_def del: upt_Suc)
qed

lemma np_where_bound: "i \<in> set (np_where bs) \<Longrightarrow> i < length bs"
  by (simp add: np_where_def)

lemma for_each_invariant:
  assumes "I s"
    and "\<And>x s s'. x \<in> set xs \<Longrightarrow> I s \<Longrightarrow> body x s = Inr s' \<Longrightarrow> I s'"
    and "for_each body xs s = Inr s'"
  shows "I s'"
  using assms
proof (induction xs arbitrary: s)
  case Nil
  then show ?case by simp
next
  case (Cons x xs)
  from Cons.prems(3) obtain s1 where s1: "body x s = Inr s1" and rest: "for_each body xs s1 = Inr s'"
    by (auto split: sum.splits)
  have "I s1" using Cons.prems(1,2) s1 by auto
  then show ?case using Cons.IH [of s1] Cons.prems(2) rest by auto
qed
section \<open>Loops over independent slots\<close>

lemma for_each_append:
  "for_each body (xs @ ys) s =
     (case for_each body xs s of Inl e \<Rightarrow> Inl e | Inr s' \<Rightarrow> for_each body ys s')"
  by (induction xs arbitrary: s) (auto split: sum.splits)

lemma for_each_map: "for_each body (map f xs) s = for_each (\<lambda>x. body (f x)) xs s"
  by (induction xs arbitrary: s) (auto split: sum.splits)

lemma for_each_nested:
  "for_each (\<lambda>x. for_each (inner x) (ys x)) xs s =
   for_each (\<lambda>p. inner (fst p) (snd p)) (concat (map (\<lambda>x. map (Pair x) (ys x)) xs)) s"
proof (induction xs arbitrary: s)
  case Nil
  show ?case by simp
next
  case (Cons x xs)
  have "for_each (\<lambda>p. inner (fst p) (snd p)) (map (Pair x) (ys x)) s = for_each (inner x) (ys x) s"
    by (simp add: for_each_map)
  then show ?case using Cons.IH by (simp add: for_each_append split: sum.splits)
qed

text \<open>
  A loop whose rounds each rewrite one slot of the state, the slots of different rounds
  being different, rewrites every slot as its own round does and leaves the rest alone.
\<close>

lemma for_each_slots:
  assumes "distinct (map key xs)"
    and "fr s = c"
    and "\<forall>x\<in>set xs. ok x (get s (key x))"
    and "\<forall>x\<in>set xs. \<forall>s. fr s = c \<longrightarrow> ok x (get s (key x)) \<longrightarrow>
           (\<exists>s'. body x s = Inr s' \<and> get s' (key x) = f x (get s (key x)) \<and>
                 (\<forall>k. k \<noteq> key x \<longrightarrow> get s' k = get s k) \<and> fr s' = c)"
  shows "\<exists>s'. for_each body xs s = Inr s' \<and>
           (\<forall>x\<in>set xs. get s' (key x) = f x (get s (key x))) \<and>
           (\<forall>k. k \<notin> key ` set xs \<longrightarrow> get s' k = get s k) \<and> fr s' = c"
  using assms
proof (induction xs arbitrary: s)
  case Nil
  then show ?case by simp
next
  case (Cons x xs)
  from Cons.prems(3) have okx: "ok x (get s (key x))" by simp
  from Cons.prems(4) have "\<forall>t. fr t = c \<longrightarrow> ok x (get t (key x)) \<longrightarrow>
           (\<exists>s'. body x t = Inr s' \<and> get s' (key x) = f x (get t (key x)) \<and>
                 (\<forall>k. k \<noteq> key x \<longrightarrow> get s' k = get t k) \<and> fr s' = c)"
    by simp
  then have "\<exists>s'. body x s = Inr s' \<and> get s' (key x) = f x (get s (key x)) \<and>
                 (\<forall>k. k \<noteq> key x \<longrightarrow> get s' k = get s k) \<and> fr s' = c"
    using Cons.prems(2) okx by blast
  then obtain s1 where
    s1: "body x s = Inr s1" "get s1 (key x) = f x (get s (key x))"
        "\<forall>k. k \<noteq> key x \<longrightarrow> get s1 k = get s k" "fr s1 = c"
    by blast
  from Cons.prems(1) have dist: "distinct (map key xs)" and nx: "key x \<notin> key ` set xs" by auto
  have same: "get s1 (key y) = get s (key y)" if "y \<in> set xs" for y
    using that nx s1(3) by (metis image_eqI)
  have ok1: "\<forall>y\<in>set xs. ok y (get s1 (key y))" using Cons.prems(3) same by simp
  have step: "\<forall>x\<in>set xs. \<forall>s. fr s = c \<longrightarrow> ok x (get s (key x)) \<longrightarrow>
           (\<exists>s'. body x s = Inr s' \<and> get s' (key x) = f x (get s (key x)) \<and>
                 (\<forall>k. k \<noteq> key x \<longrightarrow> get s' k = get s k) \<and> fr s' = c)"
    using Cons.prems(4) by simp
  from Cons.IH [OF dist s1(4) ok1 step] obtain s' where
    s': "for_each body xs s1 = Inr s'" "\<forall>y\<in>set xs. get s' (key y) = f y (get s1 (key y))"
        "\<forall>k. k \<notin> key ` set xs \<longrightarrow> get s' k = get s1 k" "fr s' = c"
    by blast
  have "for_each body (x # xs) s = Inr s'" using s1(1) s'(1) by simp
  moreover have "\<forall>y\<in>set (x # xs). get s' (key y) = f y (get s (key y))"
    using s1(2) s'(2,3) nx same by auto
  moreover have "\<forall>k. k \<notin> key ` set (x # xs) \<longrightarrow> get s' k = get s k"
    using s1(3) s'(3) by auto
  ultimately show ?case using s'(4) by blast
qed
section \<open>The recorder: what one round of each loop does to a sensor\<close>

lemma lookup2_update2_same:
  "lookup2 m a b = Some x \<Longrightarrow> lookup2 (update2 m a b v) a b = Some v"
  by (auto simp: lookup2_def update2_def split: option.splits)

lemma lookup2_update2_other:
  "(a', b') \<noteq> (a, b) \<Longrightarrow> lookup2 (update2 m a b v) a' b' = lookup2 m a' b'"
  by (auto simp: lookup2_def update2_def split: option.splits)

lemma append_sample_step:
  assumes "slot s (sn, sensor) = (Some tq, Some cq, g)" and "idx < length lt" and "idx < length lc"
  shows "\<exists>s'. append_sample (lt, lc, sn) (idx, sensor) s = Inr s' \<and>
           slot s' (sn, sensor) = appended (lt ! idx) (lc ! idx) (slot s (sn, sensor)) \<and>
           (\<forall>k. k \<noteq> (sn, sensor) \<longrightarrow> slot s' k = slot s k) \<and> frame s' = frame s"
proof -
  from assms(1) have t: "lookup2 (board_time_data s) sn sensor = Some tq"
    and c: "lookup2 (board_cap_data s) sn sensor = Some cq"
    and g: "lookup2 (h5 s) sn sensor = g"
    by (simp_all add: slot_def)
  let ?s' = "s\<lparr>board_time_data := update2 (board_time_data s) sn sensor
                   (deque_append HISTORY_SIZE tq (lt ! idx)),
               board_cap_data := update2 (board_cap_data s) sn sensor
                   (deque_append HISTORY_SIZE cq (lc ! idx))\<rparr>"
  have run: "append_sample (lt, lc, sn) (idx, sensor) s = Inr ?s'"
    using t c assms(2,3) by (simp add: append_sample_def)
  have here: "slot ?s' (sn, sensor) = appended (lt ! idx) (lc ! idx) (slot s (sn, sensor))"
    using t c g by (simp add: slot_def lookup2_update2_same)
  have other: "slot ?s' k = slot s k" if "k \<noteq> (sn, sensor)" for k
    using that by (cases k) (simp add: slot_def lookup2_update2_other)
  have "frame ?s' = frame s" by (simp add: frame_def)
  with run here other show ?thesis by blast
qed

lemma write_initial_sensor_step:
  assumes "slot s (sn, sensor) = (Some tq, Some cq, Some grp)"
    and "grp ''time_data'' = None" and "grp ''cap_data'' = None"
  shows "\<exists>s'. write_initial_sensor sn sensor s = Inr s' \<and>
           slot s' (sn, sensor) = created (slot s (sn, sensor)) \<and>
           (\<forall>k. k \<noteq> (sn, sensor) \<longrightarrow> slot s' k = slot s k) \<and> frame s' = frame s"
proof -
  from assms(1) have t: "lookup2 (board_time_data s) sn sensor = Some tq"
    and c: "lookup2 (board_cap_data s) sn sensor = Some cq"
    and g: "lookup2 (h5 s) sn sensor = Some grp"
    by (simp_all add: slot_def)
  let ?s' = "s\<lparr>h5 := update2 (h5 s) sn sensor
                 (grp(''time_data'' \<mapsto> Floats tq, ''cap_data'' \<mapsto> Ints cq))\<rparr>"
  have run: "write_initial_sensor sn sensor s = Inr ?s'"
    using t c g assms(2,3) by (simp add: write_initial_sensor_def)
  have here: "slot ?s' (sn, sensor) = created (slot s (sn, sensor))"
    using t c g by (simp add: slot_def lookup2_update2_same)
  have other: "slot ?s' k = slot s k" if "k \<noteq> (sn, sensor)" for k
    using that by (cases k) (simp add: slot_def lookup2_update2_other)
  have "frame ?s' = frame s" by (simp add: frame_def)
  with run here other show ?thesis by blast
qed

lemma write_slice_tail:
  assumes "length old = c - n" and "length batch = n" and "n \<le> c"
  shows "write_slice (c - n) (c - n + n) batch (resize (c - n + n) old) = Inr (old @ batch)"
  using assms by (simp add: write_slice_def resize_def Let_def min_def)

lemma append_sensor_step:
  assumes "slot s (sn, sensor) = (Some tq, Some cq, Some grp)"
    and "grp ''time_data'' = Some (Floats ts)" and "grp ''cap_data'' = Some (Ints cs)"
    and "length tq = HISTORY_SIZE" and "length cq = HISTORY_SIZE"
    and "HISTORY_SIZE \<le> loop_counter s"
    and "length ts = loop_counter s - HISTORY_SIZE" and "length cs = loop_counter s - HISTORY_SIZE"
  shows "\<exists>s'. append_sensor sn sensor s = Inr s' \<and>
           slot s' (sn, sensor) = extended (slot s (sn, sensor)) \<and>
           (\<forall>k. k \<noteq> (sn, sensor) \<longrightarrow> slot s' k = slot s k) \<and> frame s' = frame s"
proof -
  from assms(1) have t: "lookup2 (board_time_data s) sn sensor = Some tq"
    and c: "lookup2 (board_cap_data s) sn sensor = Some cq"
    and g: "lookup2 (h5 s) sn sensor = Some grp"
    by (simp_all add: slot_def)
  let ?n = HISTORY_SIZE and ?c = "loop_counter s"
  have wt: "write_slice (?c - ?n) (?c - ?n + ?n) tq (resize (?c - ?n + ?n) ts) = Inr (ts @ tq)"
    using assms(7,4,6) by (rule write_slice_tail)
  have wc: "write_slice (?c - ?n) (?c - ?n + ?n) cq (resize (?c - ?n + ?n) cs) = Inr (cs @ cq)"
    using assms(8,5,6) by (rule write_slice_tail)
  let ?s' = "s\<lparr>h5 := update2 (h5 s) sn sensor
                 (grp(''time_data'' \<mapsto> Floats (ts @ tq), ''cap_data'' \<mapsto> Ints (cs @ cq)))\<rparr>"
  have run: "append_sensor sn sensor s = Inr ?s'"
    using t c g assms(2,3) wt wc by (simp add: append_sensor_def Let_def)
  have here: "slot ?s' (sn, sensor) = extended (slot s (sn, sensor))"
    using t c g assms(2,3) by (simp add: slot_def lookup2_update2_same)
  have other: "slot ?s' k = slot s k" if "k \<noteq> (sn, sensor)" for k
    using that by (cases k) (simp add: slot_def lookup2_update2_other)
  have "frame ?s' = frame s" by (simp add: frame_def)
  with run here other show ?thesis by blast
qed
section \<open>The recorder: the loops over boards and sensors\<close>

lemma distinct_sensors_of: "distinct (sensors_of sn)"
  by (simp add: sensors_of_def SERIAL_NUMBER_SENSOR_MAP_def)

lemma set_sensor_keys:
  "k \<in> set (sensor_keys ctrls) \<longleftrightarrow> fst k \<in> set ctrls \<and> snd k \<in> set (sensors_of (fst k))"
  by (cases k) (auto simp: sensor_keys_def)

lemma distinct_sensor_keys: "distinct ctrls \<Longrightarrow> distinct (sensor_keys ctrls)"
proof (induction ctrls)
  case Nil
  show ?case by (simp add: sensor_keys_def)
next
  case (Cons sn ctrls)
  have "distinct (map (Pair sn) (sensors_of sn))"
    by (simp add: distinct_map distinct_sensors_of inj_on_def)
  moreover have "set (map (Pair sn) (sensors_of sn)) \<inter> set (sensor_keys ctrls) = {}"
    using Cons.prems by (auto simp: set_sensor_keys)
  moreover have "distinct (sensor_keys ctrls)" using Cons by simp
  moreover have "sensor_keys (sn # ctrls) = map (Pair sn) (sensors_of sn) @ sensor_keys ctrls"
    by (simp add: sensor_keys_def)
  ultimately show ?case by simp
qed

lemma read_all_good:
  "good_reads ctrls rd \<Longrightarrow>
   read_all ctrls rd = Inr (map (\<lambda>sn. (fst (projr (rd sn)), snd (projr (rd sn)), sn)) ctrls)"
proof (induction ctrls)
  case Nil
  show ?case by (simp add: read_all_def)
next
  case (Cons sn ctrls)
  then have "read_all ctrls rd =
      Inr (map (\<lambda>sn. (fst (projr (rd sn)), snd (projr (rd sn)), sn)) ctrls)"
    by (simp add: good_reads_def)
  moreover from Cons.prems obtain r where "rd sn = Inr r"
    by (auto simp: good_reads_def split: sum.splits)
  ultimately show ?case by (simp add: read_all_def split: prod.splits)
qed

lemma good_reads_lengths:
  assumes "good_reads ctrls rd" and "sn \<in> set ctrls" and "idx < length (sensors_of sn)"
  shows "idx < length (fst (projr (rd sn))) \<and> idx < length (snd (projr (rd sn)))"
proof (cases "rd sn")
  case (Inl e)
  with assms(1,2) show ?thesis by (auto simp: good_reads_def list_all_iff)
next
  case (Inr r)
  with assms show ?thesis by (auto simp: good_reads_def list_all_iff)
qed

lemma map_pair_enumerate: "map (\<lambda>e. (a, snd e)) (enumerate n xs) = map (Pair a) xs"
proof -
  have "map (Pair a) xs = map (Pair a) (map snd (enumerate n xs))" by simp
  also have "\<dots> = map (\<lambda>e. (a, snd e)) (enumerate n xs)" by (simp only: map_map comp_def)
  finally show ?thesis by simp
qed

lemma acquire_slots:
  assumes dist: "distinct ctrls" and ctrls: "controllers s = ctrls" and good: "good_reads ctrls rd"
    and bufs: "\<forall>k\<in>set (sensor_keys ctrls). \<exists>tq cq g. slot s k = (Some tq, Some cq, g)"
  shows "\<exists>s1. acquire rd s = Inr s1 \<and> frame s1 = frame s \<and>
           (\<forall>sn\<in>set ctrls. \<forall>idx<length (sensors_of sn).
              slot s1 (sn, sensors_of sn ! idx) =
                appended (fst (projr (rd sn)) ! idx) (snd (projr (rd sn)) ! idx)
                  (slot s (sn, sensors_of sn ! idx)))"
proof -
  let ?res = "\<lambda>sn. (fst (projr (rd sn)), snd (projr (rd sn)), sn)"
  let ?items = "concat (map (\<lambda>r. map (Pair r) (enumerate 0 (sensors_of (snd (snd r)))))
                  (map ?res ctrls))"
  let ?key = "\<lambda>x :: (real list \<times> int list \<times> string) \<times> (nat \<times> nat). (snd (snd (fst x)), snd (snd x))"
  let ?ok = "\<lambda>(x :: (real list \<times> int list \<times> string) \<times> (nat \<times> nat)) v.
               (\<exists>tq cq g. v = (Some tq, Some cq, g)) \<and>
               fst (snd x) < length (fst (fst x)) \<and> fst (snd x) < length (fst (snd (fst x)))"
  let ?f = "\<lambda>(x :: (real list \<times> int list \<times> string) \<times> (nat \<times> nat)).
               appended (fst (fst x) ! fst (snd x)) (fst (snd (fst x)) ! fst (snd x))"
  let ?body = "\<lambda>x :: (real list \<times> int list \<times> string) \<times> (nat \<times> nat). append_sample (fst x) (snd x)"
  have run: "acquire rd s = for_each ?body ?items s"
  proof -
    have ab: "append_board =
        (\<lambda>r. for_each (append_sample r) (enumerate 0 (sensors_of (snd (snd r)))))"
      by (rule ext)+ (simp add: append_board_def)
    have "for_each append_board (map ?res ctrls) s = for_each ?body ?items s"
      unfolding ab by (rule for_each_nested)
    then show ?thesis
      using read_all_good [OF good] by (simp add: acquire_def ctrls)
  qed
  have keys: "map ?key ?items = sensor_keys ctrls"
    by (simp add: sensor_keys_def map_concat comp_def map_pair_enumerate)
  have mem1: "\<exists>sn idx. sn \<in> set ctrls \<and> idx < length (sensors_of sn) \<and>
                x = (?res sn, (idx, sensors_of sn ! idx))" if "x \<in> set ?items" for x
    using that by (auto simp: in_set_enumerate_eq)
  have mem2: "(?res sn, (idx, sensors_of sn ! idx)) \<in> set ?items"
    if "sn \<in> set ctrls" "idx < length (sensors_of sn)" for sn idx
  proof -
    have "(idx, sensors_of sn ! idx) \<in> set (enumerate 0 (sensors_of sn))"
      using that(2) by (simp add: in_set_enumerate_eq)
    then show ?thesis using that(1) by auto
  qed
  have d: "distinct (map ?key ?items)" unfolding keys using dist by (rule distinct_sensor_keys)
  have ok: "\<forall>x\<in>set ?items. ?ok x (slot s (?key x))"
  proof
    fix x assume "x \<in> set ?items"
    from mem1 [OF this] obtain sn idx where x: "sn \<in> set ctrls" "idx < length (sensors_of sn)"
      "x = (?res sn, (idx, sensors_of sn ! idx))" by blast
    then have "(sn, sensors_of sn ! idx) \<in> set (sensor_keys ctrls)"
      by (simp add: set_sensor_keys)
    with bufs have "\<exists>tq cq g. slot s (sn, sensors_of sn ! idx) = (Some tq, Some cq, g)" by blast
    then show "?ok x (slot s (?key x))"
      using x good_reads_lengths [OF good x(1,2)] by simp
  qed
  have step: "\<forall>x\<in>set ?items. \<forall>s'. frame s' = frame s \<longrightarrow> ?ok x (slot s' (?key x)) \<longrightarrow>
      (\<exists>s''. ?body x s' = Inr s'' \<and> slot s'' (?key x) = ?f x (slot s' (?key x)) \<and>
            (\<forall>k. k \<noteq> ?key x \<longrightarrow> slot s'' k = slot s' k) \<and> frame s'' = frame s)"
  proof (intro ballI allI impI)
    fix x s'
    assume fr: "frame s' = frame s" and okx: "?ok x (slot s' (?key x))"
    obtain lt lc sn idx sensor where x: "x = ((lt, lc, sn), (idx, sensor))"
      by (metis prod.collapse)
    from okx obtain tq cq g where "slot s' (sn, sensor) = (Some tq, Some cq, g)"
      and "idx < length lt" and "idx < length lc" by (auto simp: x)
    from append_sample_step [OF this]
    show "\<exists>s''. ?body x s' = Inr s'' \<and> slot s'' (?key x) = ?f x (slot s' (?key x)) \<and>
            (\<forall>k. k \<noteq> ?key x \<longrightarrow> slot s'' k = slot s' k) \<and> frame s'' = frame s"
      using fr by (simp add: x)
  qed
  from for_each_slots [where key = ?key and fr = frame and get = slot and ok = ?ok
      and body = ?body and f = ?f, OF d refl ok step]
  obtain s1 where s1: "for_each ?body ?items s = Inr s1"
    "\<forall>x\<in>set ?items. slot s1 (?key x) = ?f x (slot s (?key x))" "frame s1 = frame s"
    by blast
  have "slot s1 (sn, sensors_of sn ! idx) =
          appended (fst (projr (rd sn)) ! idx) (snd (projr (rd sn)) ! idx)
            (slot s (sn, sensors_of sn ! idx))"
    if "sn \<in> set ctrls" "idx < length (sensors_of sn)" for sn idx
    using s1(2) mem2 [OF that] by fastforce
  then show ?thesis using run s1(1,3) by auto
qed

lemma write_initial_data_slots:
  assumes dist: "distinct ctrls" and ctrls: "controllers s = ctrls"
    and pre: "\<forall>k\<in>set (sensor_keys ctrls). \<exists>tq cq grp. slot s k = (Some tq, Some cq, Some grp) \<and>
                grp ''time_data'' = None \<and> grp ''cap_data'' = None"
  shows "\<exists>s2. write_initial_data s = Inr s2 \<and> frame s2 = frame s \<and>
           (\<forall>k\<in>set (sensor_keys ctrls). slot s2 k = created (slot s k))"
proof -
  let ?body = "\<lambda>p :: string \<times> nat. write_initial_sensor (fst p) (snd p)"
  let ?ok = "\<lambda>(p :: string \<times> nat) v. \<exists>tq cq grp. v = (Some tq, Some cq, Some grp) \<and>
                grp ''time_data'' = None \<and> grp ''cap_data'' = None"
  have run: "write_initial_data s = for_each ?body (sensor_keys ctrls) s"
    unfolding write_initial_data_def sensor_keys_def ctrls by (rule for_each_nested)
  have d: "distinct (map (\<lambda>k. k) (sensor_keys ctrls))"
    using distinct_sensor_keys [OF dist] by simp
  have ok: "\<forall>x\<in>set (sensor_keys ctrls). ?ok x (slot s x)" using pre by simp
  have step: "\<forall>x\<in>set (sensor_keys ctrls). \<forall>s'. frame s' = frame s \<longrightarrow> ?ok x (slot s' x) \<longrightarrow>
      (\<exists>s''. ?body x s' = Inr s'' \<and> slot s'' x = created (slot s' x) \<and>
            (\<forall>k. k \<noteq> x \<longrightarrow> slot s'' k = slot s' k) \<and> frame s'' = frame s)"
  proof (intro ballI allI impI)
    fix x s'
    assume fr: "frame s' = frame s" and okx: "?ok x (slot s' x)"
    obtain sn sensor where x: "x = (sn, sensor)" by (cases x)
    from okx obtain tq cq grp where "slot s' (sn, sensor) = (Some tq, Some cq, Some grp)"
      and "grp ''time_data'' = None" and "grp ''cap_data'' = None" by (auto simp: x)
    from write_initial_sensor_step [OF this]
    show "\<exists>s''. ?body x s' = Inr s'' \<and> slot s'' x = created (slot s' x) \<and>
            (\<forall>k. k \<noteq> x \<longrightarrow> slot s'' k = slot s' k) \<and> frame s'' = frame s"
      using fr by (simp add: x)
  qed
  from for_each_slots [where key = "\<lambda>k. k" and fr = frame and get = slot and ok = ?ok
      and body = ?body and f = "\<lambda>x. created", OF d refl ok step]
  show ?thesis using run by auto
qed

lemma append_data_slots:
  assumes dist: "distinct ctrls" and ctrls: "controllers s = ctrls"
    and cnt: "HISTORY_SIZE \<le> loop_counter s"
    and pre: "\<forall>k\<in>set (sensor_keys ctrls). \<exists>tq cq grp ts cs.
                slot s k = (Some tq, Some cq, Some grp) \<and>
                grp ''time_data'' = Some (Floats ts) \<and> grp ''cap_data'' = Some (Ints cs) \<and>
                length tq = HISTORY_SIZE \<and> length cq = HISTORY_SIZE \<and>
                length ts = loop_counter s - HISTORY_SIZE \<and>
                length cs = loop_counter s - HISTORY_SIZE"
  shows "\<exists>s2. append_data s = Inr s2 \<and> frame s2 = frame s \<and>
           (\<forall>k\<in>set (sensor_keys ctrls). slot s2 k = extended (slot s k))"
proof -
  let ?c = "loop_counter s"
  let ?body = "\<lambda>p :: string \<times> nat. append_sensor (fst p) (snd p)"
  let ?ok = "\<lambda>(p :: string \<times> nat) v. \<exists>tq cq grp ts cs. v = (Some tq, Some cq, Some grp) \<and>
                grp ''time_data'' = Some (Floats ts) \<and> grp ''cap_data'' = Some (Ints cs) \<and>
                length tq = HISTORY_SIZE \<and> length cq = HISTORY_SIZE \<and>
                length ts = ?c - HISTORY_SIZE \<and> length cs = ?c - HISTORY_SIZE"
  have run: "append_data s = for_each ?body (sensor_keys ctrls) s"
    unfolding append_data_def sensor_keys_def ctrls by (rule for_each_nested)
  have d: "distinct (map (\<lambda>k. k) (sensor_keys ctrls))"
    using distinct_sensor_keys [OF dist] by simp
  have ok: "\<forall>x\<in>set (sensor_keys ctrls). ?ok x (slot s x)" using pre by simp
  have step: "\<forall>x\<in>set (sensor_keys ctrls). \<forall>s'. frame s' = frame s \<longrightarrow> ?ok x (slot s' x) \<longrightarrow>
      (\<exists>s''. ?body x s' = Inr s'' \<and> slot s'' x = extended (slot s' x) \<and>
            (\<forall>k. k \<noteq> x \<longrightarrow> slot s'' k = slot s' k) \<and> frame s'' = frame s)"
  proof (intro ballI allI impI)
    fix x s'
    assume fr: "frame s' = frame s" and okx: "?ok x (slot s' x)"
    obtain sn sensor where x: "x = (sn, sensor)" by (cases x)
    from fr have c: "loop_counter s' = ?c" by (simp add: frame_def)
    from okx obtain tq cq grp ts cs where
      "slot s' (sn, sensor) = (Some tq, Some cq, Some grp)"
      "grp ''time_data'' = Some (Floats ts)" "grp ''cap_data'' = Some (Ints cs)"
      "length tq = HISTORY_SIZE" "length cq = HISTORY_SIZE"
      "HISTORY_SIZE \<le> loop_counter s'"
      "length ts = loop_counter s' - HISTORY_SIZE" "length cs = loop_counter s' - HISTORY_SIZE"
      using cnt c by (auto simp: x)
    from append_sensor_step [OF this]
    show "\<exists>s''. ?body x s' = Inr s'' \<and> slot s'' x = extended (slot s' x) \<and>
            (\<forall>k. k \<noteq> x \<longrightarrow> slot s'' k = slot s' k) \<and> frame s'' = frame s"
      using fr by (simp add: x)
  qed
  from for_each_slots [where key = "\<lambda>k. k" and fr = frame and get = slot and ok = ?ok
      and body = ?body and f = "\<lambda>x. extended", OF d refl ok step]
  show ?thesis using run by auto
qed
section \<open>The recorder: ring buffers and flushed batches as lists\<close>

lemma HISTORY_SIZE_pos: "0 < HISTORY_SIZE"
  by (simp add: HISTORY_SIZE_def)

lemma length_lastn: "length (lastn n xs) = min n (length xs)"
  by (simp add: lastn_def)

lemma deque_append_lastn:
  "0 < n \<Longrightarrow> deque_append n (lastn n xs) x = lastn n (xs @ [x])"
  by (cases "length xs < n") (auto simp: deque_append_def lastn_def Let_def Suc_diff_le)

lemma length_flushed:
  assumes "length xs = k"
  shows "length (flushed k xs) = HISTORY_SIZE * ((k - 1) div HISTORY_SIZE)"
proof -
  have "HISTORY_SIZE * ((k - 1) div HISTORY_SIZE) \<le> k - 1" by simp
  then show ?thesis using assms by (simp add: flushed_def)
qed

lemma flushed_noflush:
  assumes "length xs = k" and "k mod HISTORY_SIZE \<noteq> 0"
  shows "flushed (Suc k) (xs @ [x]) = flushed k xs"
proof -
  let ?n = HISTORY_SIZE
  from assms(2) have k: "0 < k" by (cases k) auto
  have "k div ?n = (k - 1) div ?n"
  proof -
    from k obtain j where "k = Suc j" by (cases k) auto
    then show ?thesis using assms(2) by (simp add: div_Suc)
  qed
  moreover have "take (?n * ((k - 1) div ?n)) (drop 1 (xs @ [x])) =
                 take (?n * ((k - 1) div ?n)) (drop 1 xs)"
  proof -
    have "?n * ((k - 1) div ?n) \<le> k - 1" by simp
    then show ?thesis using assms(1) k by simp
  qed
  ultimately show ?thesis by (simp add: flushed_def)
qed

lemma flushed_flush:
  assumes "length xs = k" and "HISTORY_SIZE \<le> k" and "k mod HISTORY_SIZE = 0"
  shows "flushed (Suc k) (xs @ [x]) = flushed k xs @ lastn HISTORY_SIZE (xs @ [x])"
    and "length (flushed k xs) = k - HISTORY_SIZE"
proof -
  let ?n = HISTORY_SIZE
  have n: "0 < ?n" by (rule HISTORY_SIZE_pos)
  from assms(2) n have k: "0 < k" by simp
  obtain m where m: "k = ?n * m" using assms(3) by (auto simp: mod_eq_0_iff_dvd)
  with k obtain m' where m': "m = Suc m'" by (cases m) auto
  have "(k - 1) div ?n = m'"
  proof -
    from n obtain r where r: "?n = Suc r" by (cases ?n) auto
    have "k - 1 = ?n * m' + r" by (simp add: m m' r)
    moreover have "r < ?n" by (simp add: r)
    ultimately show ?thesis by simp
  qed
  then have d: "?n * ((k - 1) div ?n) = k - ?n" by (simp add: m m')
  show len: "length (flushed k xs) = k - ?n"
    using length_flushed [OF assms(1)] d by simp
  define D where "D = drop 1 (xs @ [x])"
  have lenD: "length D = k" using assms(1) by (simp add: D_def)
  have t: "take (k - ?n) D = flushed k xs"
    using assms(1) k n d by (simp add: flushed_def D_def)
  have l: "drop (k - ?n) D = lastn ?n (xs @ [x])"
  proof -
    have "drop (k - ?n) D = drop (k - ?n + 1) (xs @ [x])" by (simp only: D_def drop_drop)
    moreover have "k - ?n + 1 = length (xs @ [x]) - ?n" using assms(1,2) by simp
    ultimately show ?thesis by (simp only: lastn_def)
  qed
  have "flushed (Suc k) (xs @ [x]) = take (?n * (k div ?n)) D" by (simp add: flushed_def D_def)
  also have "?n * (k div ?n) = k" using assms(3) by (simp add: m)
  also have "take k D = D" using lenD by simp
  also have "D = take (k - ?n) D @ drop (k - ?n) D" by (rule append_take_drop_id [symmetric])
  finally show "flushed (Suc k) (xs @ [x]) = flushed k xs @ lastn ?n (xs @ [x])"
    by (simp only: t l)
qed
section \<open>The recorder: one iteration keeps the invariant\<close>

lemma sensor_keys_nth:
  "key \<in> set (sensor_keys ctrls) \<longleftrightarrow>
     (\<exists>sn idx. sn \<in> set ctrls \<and> idx < length (sensors_of sn) \<and> key = (sn, sensors_of sn ! idx))"
proof -
  obtain a b where key: "key = (a, b)" by (cases key)
  have "b \<in> set (sensors_of a) \<longleftrightarrow> (\<exists>idx<length (sensors_of a). b = sensors_of a ! idx)"
    by (auto simp: in_set_conv_nth)
  then show ?thesis unfolding key by (auto simp: set_sensor_keys)
qed

lemma slot_holds_iff:
  "slot_holds k tb cb td cd v \<longleftrightarrow>
     (\<exists>grp. v = (Some (lastn HISTORY_SIZE tb), Some (lastn HISTORY_SIZE cb), Some grp) \<and>
        grp ''time_data'' =
          (if k \<le> HISTORY_SIZE then None else Some (Floats (flushed k td))) \<and>
        grp ''cap_data'' =
          (if k \<le> HISTORY_SIZE then None else Some (Ints (flushed k cd))))"
proof -
  obtain a b c where v: "v = (a, b, c)" by (cases v)
  show ?thesis unfolding v slot_holds_def
    by (cases a; cases b; cases c) auto
qed

lemma slot_holds_buffers:
  "slot_holds k tb cb td cd v \<Longrightarrow> \<exists>tq cq g. v = (Some tq, Some cq, g)"
  by (auto simp: slot_holds_iff)

lemma appended_holds:
  assumes "slot_holds k tb cb td cd v"
  shows "slot_holds k (tb @ [t]) (cb @ [c]) td cd (appended t c v)"
  using assms HISTORY_SIZE_pos
  by (auto simp: slot_holds_iff deque_append_lastn)

lemma noflush_holds:
  assumes "slot_holds k (tb @ [t]) (cb @ [c]) tb cb v"
    and "length tb = k" and "length cb = k"
    and "k \<noteq> HISTORY_SIZE" and "\<not> (0 < k \<and> k mod HISTORY_SIZE = 0)"
  shows "slot_holds (Suc k) (tb @ [t]) (cb @ [c]) (tb @ [t]) (cb @ [c]) v"
proof (cases "k < HISTORY_SIZE")
  case True
  with assms(1) show ?thesis
    by (auto simp: slot_holds_iff)
next
  case False
  with assms(4,5) have gt: "HISTORY_SIZE < k" and nz: "k mod HISTORY_SIZE \<noteq> 0" by auto
  have "flushed (Suc k) (tb @ [t]) = flushed k tb" using assms(2) nz by (rule flushed_noflush)
  moreover have "flushed (Suc k) (cb @ [c]) = flushed k cb" using assms(3) nz by (rule flushed_noflush)
  ultimately show ?thesis using assms(1) gt
    by (auto simp: slot_holds_iff)
qed

lemma created_holds:
  assumes "slot_holds k (tb @ [t]) (cb @ [c]) tb cb v"
    and "length tb = k" and "length cb = k" and "k = HISTORY_SIZE"
  shows "slot_holds (Suc k) (tb @ [t]) (cb @ [c]) (tb @ [t]) (cb @ [c]) (created v)"
proof -
  have le: "HISTORY_SIZE \<le> k" and md: "k mod HISTORY_SIZE = 0" using assms(4) by simp_all
  have "flushed k tb = []" using flushed_flush(2) [OF assms(2) le md] assms(4) by simp
  then have t: "flushed (Suc k) (tb @ [t]) = lastn HISTORY_SIZE (tb @ [t])"
    using flushed_flush(1) [OF assms(2) le md, of t] by simp
  have "flushed k cb = []" using flushed_flush(2) [OF assms(3) le md] assms(4) by simp
  then have c: "flushed (Suc k) (cb @ [c]) = lastn HISTORY_SIZE (cb @ [c])"
    using flushed_flush(1) [OF assms(3) le md, of c] by simp
  show ?thesis using assms(1,4) t c
    by (auto simp: slot_holds_iff)
qed

lemma extended_holds:
  assumes "slot_holds k (tb @ [t]) (cb @ [c]) tb cb v"
    and "length tb = k" and "length cb = k"
    and "HISTORY_SIZE < k" and "k mod HISTORY_SIZE = 0"
  shows "slot_holds (Suc k) (tb @ [t]) (cb @ [c]) (tb @ [t]) (cb @ [c]) (extended v)"
proof -
  have le: "HISTORY_SIZE \<le> k" using assms(4) by simp
  note t = flushed_flush(1) [OF assms(2) le assms(5), of t]
  note c = flushed_flush(1) [OF assms(3) le assms(5), of c]
  show ?thesis using assms(1,4) t c
    by (auto simp: slot_holds_iff)
qed

lemma slot_holds_fresh:
  assumes "slot_holds k (tb @ [t]) (cb @ [c]) tb cb v" and "k = HISTORY_SIZE"
  shows "\<exists>tq cq grp. v = (Some tq, Some cq, Some grp) \<and>
           grp ''time_data'' = None \<and> grp ''cap_data'' = None"
  using assms by (auto simp: slot_holds_iff)

lemma slot_holds_full:
  assumes "slot_holds k (tb @ [t]) (cb @ [c]) tb cb v"
    and "length tb = k" and "length cb = k"
    and "HISTORY_SIZE < k" and "k mod HISTORY_SIZE = 0"
  shows "\<exists>tq cq grp ts cs. v = (Some tq, Some cq, Some grp) \<and>
           grp ''time_data'' = Some (Floats ts) \<and> grp ''cap_data'' = Some (Ints cs) \<and>
           length tq = HISTORY_SIZE \<and> length cq = HISTORY_SIZE \<and>
           length ts = k - HISTORY_SIZE \<and> length cs = k - HISTORY_SIZE"
proof -
  have le: "HISTORY_SIZE \<le> k" using assms(4) by simp
  note lt = flushed_flush(2) [OF assms(2) le assms(5)]
  note lc = flushed_flush(2) [OF assms(3) le assms(5)]
  show ?thesis using assms(1-4) lt lc
    by (auto simp: slot_holds_iff length_lastn)
qed

lemma samples_snoc:
  "time_samples (rds @ [rd]) sn idx = time_samples rds sn idx @ [fst (projr (rd sn)) ! idx]"
  "cap_samples (rds @ [rd]) sn idx = cap_samples rds sn idx @ [snd (projr (rd sn)) ! idx]"
  by (simp_all add: time_samples_def cap_samples_def)

lemma length_samples:
  "length (time_samples rds sn idx) = length rds" "length (cap_samples rds sn idx) = length rds"
  by (simp_all add: time_samples_def cap_samples_def)

lemma recorder_inv_sensor:
  "recorder_inv ctrls rds s \<Longrightarrow> sn \<in> set ctrls \<Longrightarrow> idx < length (sensors_of sn) \<Longrightarrow>
   slot_holds (length rds) (time_samples rds sn idx) (cap_samples rds sn idx)
     (time_samples rds sn idx) (cap_samples rds sn idx) (slot s (sn, sensors_of sn ! idx))"
  by (simp add: recorder_inv_def sensor_inv_def list_all_iff)

lemma iteration_step:
  assumes dist: "distinct ctrls" and inv: "recorder_inv ctrls rds s" and good: "good_reads ctrls rd"
  shows "\<exists>s1 s2. acquire rd s = Inr s1 \<and> flush s1 = Inr s2 \<and>
           frame s1 = frame s \<and> frame s2 = frame s \<and>
           (\<forall>sn\<in>set ctrls. \<forall>idx<length (sensors_of sn).
              slot_holds (length rds)
                (time_samples (rds @ [rd]) sn idx) (cap_samples (rds @ [rd]) sn idx)
                (time_samples rds sn idx) (cap_samples rds sn idx)
                (slot s1 (sn, sensors_of sn ! idx)) \<and>
              slot_holds (Suc (length rds))
                (time_samples (rds @ [rd]) sn idx) (cap_samples (rds @ [rd]) sn idx)
                (time_samples (rds @ [rd]) sn idx) (cap_samples (rds @ [rd]) sn idx)
                (slot s2 (sn, sensors_of sn ! idx)))"
proof -
  let ?k = "length rds"
  let ?T = "\<lambda>sn idx. time_samples rds sn idx" and ?C = "\<lambda>sn idx. cap_samples rds sn idx"
  let ?t = "\<lambda>sn idx. fst (projr (rd sn)) ! idx" and ?c = "\<lambda>sn idx. snd (projr (rd sn)) ! idx"
  from inv have ctrls: "controllers s = ctrls" and cnt: "loop_counter s = ?k"
    by (simp_all add: recorder_inv_def)
  have H0: "slot_holds ?k (?T sn idx) (?C sn idx) (?T sn idx) (?C sn idx)
              (slot s (sn, sensors_of sn ! idx))"
    if "sn \<in> set ctrls" "idx < length (sensors_of sn)" for sn idx
    using inv that by (rule recorder_inv_sensor)
  have bufs: "\<forall>key\<in>set (sensor_keys ctrls). \<exists>tq cq g. slot s key = (Some tq, Some cq, g)"
  proof
    fix key assume "key \<in> set (sensor_keys ctrls)"
    then obtain sn idx where key: "sn \<in> set ctrls" "idx < length (sensors_of sn)"
      "key = (sn, sensors_of sn ! idx)" by (auto simp: sensor_keys_nth)
    from slot_holds_buffers [OF H0 [OF key(1,2)]]
    show "\<exists>tq cq g. slot s key = (Some tq, Some cq, g)" by (simp add: key(3))
  qed
  from acquire_slots [OF dist ctrls good bufs] obtain s1 where
    s1: "acquire rd s = Inr s1" "frame s1 = frame s"
    and app: "\<And>sn idx. sn \<in> set ctrls \<Longrightarrow> idx < length (sensors_of sn) \<Longrightarrow>
            slot s1 (sn, sensors_of sn ! idx) =
              appended (?t sn idx) (?c sn idx) (slot s (sn, sensors_of sn ! idx))"
    by blast
  have H1: "slot_holds ?k (?T sn idx @ [?t sn idx]) (?C sn idx @ [?c sn idx]) (?T sn idx) (?C sn idx)
              (slot s1 (sn, sensors_of sn ! idx))"
    if "sn \<in> set ctrls" "idx < length (sensors_of sn)" for sn idx
    unfolding app [OF that] using H0 [OF that] by (rule appended_holds)
  from s1(2) ctrls cnt have ctrls1: "controllers s1 = ctrls" and cnt1: "loop_counter s1 = ?k"
    by (simp_all add: frame_def)
  have "\<exists>s2. flush s1 = Inr s2 \<and> frame s2 = frame s1 \<and>
          (\<forall>sn\<in>set ctrls. \<forall>idx<length (sensors_of sn).
             slot_holds (Suc ?k) (?T sn idx @ [?t sn idx]) (?C sn idx @ [?c sn idx])
               (?T sn idx @ [?t sn idx]) (?C sn idx @ [?c sn idx])
               (slot s2 (sn, sensors_of sn ! idx)))"
  proof (cases "?k = HISTORY_SIZE")
    case True
    have pre: "\<forall>key\<in>set (sensor_keys ctrls). \<exists>tq cq grp. slot s1 key = (Some tq, Some cq, Some grp) \<and>
                grp ''time_data'' = None \<and> grp ''cap_data'' = None"
    proof
      fix key assume "key \<in> set (sensor_keys ctrls)"
      then obtain sn idx where key: "sn \<in> set ctrls" "idx < length (sensors_of sn)"
        "key = (sn, sensors_of sn ! idx)" by (auto simp: sensor_keys_nth)
      from slot_holds_fresh [OF H1 [OF key(1,2)] True]
      show "\<exists>tq cq grp. slot s1 key = (Some tq, Some cq, Some grp) \<and>
                grp ''time_data'' = None \<and> grp ''cap_data'' = None" by (simp add: key(3))
    qed
    from write_initial_data_slots [OF dist ctrls1 pre] obtain s2 where
      s2: "write_initial_data s1 = Inr s2" "frame s2 = frame s1"
      and cr: "\<And>key. key \<in> set (sensor_keys ctrls) \<Longrightarrow> slot s2 key = created (slot s1 key)"
      by blast
    have "slot_holds (Suc ?k) (?T sn idx @ [?t sn idx]) (?C sn idx @ [?c sn idx])
               (?T sn idx @ [?t sn idx]) (?C sn idx @ [?c sn idx])
               (slot s2 (sn, sensors_of sn ! idx))"
      if "sn \<in> set ctrls" "idx < length (sensors_of sn)" for sn idx
    proof -
      have "(sn, sensors_of sn ! idx) \<in> set (sensor_keys ctrls)"
        using that by (auto simp: sensor_keys_nth)
      from cr [OF this] show ?thesis
        using created_holds [OF H1 [OF that] _ _ True] by (simp add: length_samples)
    qed
    moreover have "flush s1 = Inr s2" using s2(1) True cnt1 by (simp add: flush_def)
    ultimately show ?thesis using s2(2) by blast
  next
    case False
    show ?thesis
    proof (cases "0 < ?k \<and> ?k mod HISTORY_SIZE = 0")
      case True
      then have md: "?k mod HISTORY_SIZE = 0" by simp
      have "HISTORY_SIZE dvd ?k" using md by (simp add: mod_eq_0_iff_dvd)
      then have "HISTORY_SIZE \<le> ?k" using True by (intro dvd_imp_le) simp_all
      then have gt: "HISTORY_SIZE < ?k" using False by simp
      have pre: "\<forall>key\<in>set (sensor_keys ctrls). \<exists>tq cq grp ts cs.
                slot s1 key = (Some tq, Some cq, Some grp) \<and>
                grp ''time_data'' = Some (Floats ts) \<and> grp ''cap_data'' = Some (Ints cs) \<and>
                length tq = HISTORY_SIZE \<and> length cq = HISTORY_SIZE \<and>
                length ts = loop_counter s1 - HISTORY_SIZE \<and>
                length cs = loop_counter s1 - HISTORY_SIZE"
      proof
        fix key assume "key \<in> set (sensor_keys ctrls)"
        then obtain sn idx where key: "sn \<in> set ctrls" "idx < length (sensors_of sn)"
          "key = (sn, sensors_of sn ! idx)" by (auto simp: sensor_keys_nth)
        from slot_holds_full [OF H1 [OF key(1,2)] _ _ gt md]
        show "\<exists>tq cq grp ts cs.
                slot s1 key = (Some tq, Some cq, Some grp) \<and>
                grp ''time_data'' = Some (Floats ts) \<and> grp ''cap_data'' = Some (Ints cs) \<and>
                length tq = HISTORY_SIZE \<and> length cq = HISTORY_SIZE \<and>
                length ts = loop_counter s1 - HISTORY_SIZE \<and>
                length cs = loop_counter s1 - HISTORY_SIZE"
          by (simp add: length_samples key(3) cnt1)
      qed
      have le: "HISTORY_SIZE \<le> loop_counter s1" using gt cnt1 by simp
      from append_data_slots [OF dist ctrls1 le pre] obtain s2 where
        s2: "append_data s1 = Inr s2" "frame s2 = frame s1"
        and ex: "\<And>key. key \<in> set (sensor_keys ctrls) \<Longrightarrow> slot s2 key = extended (slot s1 key)"
        by blast
      have "slot_holds (Suc ?k) (?T sn idx @ [?t sn idx]) (?C sn idx @ [?c sn idx])
               (?T sn idx @ [?t sn idx]) (?C sn idx @ [?c sn idx])
               (slot s2 (sn, sensors_of sn ! idx))"
        if "sn \<in> set ctrls" "idx < length (sensors_of sn)" for sn idx
      proof -
        have "(sn, sensors_of sn ! idx) \<in> set (sensor_keys ctrls)"
          using that by (auto simp: sensor_keys_nth)
        from ex [OF this] show ?thesis
          using extended_holds [OF H1 [OF that] _ _ gt md] by (simp add: length_samples)
      qed
      moreover have "flush s1 = Inr s2" using s2(1) True False cnt1 by (simp add: flush_def)
      ultimately show ?thesis using s2(2) by blast
    next
      case nf: False
      have "slot_holds (Suc ?k) (?T sn idx @ [?t sn idx]) (?C sn idx @ [?c sn idx])
               (?T sn idx @ [?t sn idx]) (?C sn idx @ [?c sn idx])
               (slot s1 (sn, sensors_of sn ! idx))"
        if "sn \<in> set ctrls" "idx < length (sensors_of sn)" for sn idx
        using noflush_holds [OF H1 [OF that] _ _ False nf] by (simp add: length_samples)
      moreover have "flush s1 = Inr s1" using False nf cnt1 by (auto simp: flush_def)
      ultimately show ?thesis by blast
    qed
  qed
  then obtain s2 where s2: "flush s1 = Inr s2" "frame s2 = frame s1"
    and H2: "\<And>sn idx. sn \<in> set ctrls \<Longrightarrow> idx < length (sensors_of sn) \<Longrightarrow>
             slot_holds (Suc ?k) (?T sn idx @ [?t sn idx]) (?C sn idx @ [?c sn idx])
               (?T sn idx @ [?t sn idx]) (?C sn idx @ [?c sn idx])
               (slot s2 (sn, sensors_of sn ! idx))"
    by blast
  show ?thesis
    using s1 s2 H1 H2 by (auto simp: samples_snoc)
qed
section \<open>The recorder: whole sessions\<close>

lemma flushed_short:
  assumes "k \<le> HISTORY_SIZE"
  shows "flushed k xs = []"
proof -
  have "(k - 1) div HISTORY_SIZE = 0" using assms HISTORY_SIZE_pos by simp
  then show ?thesis by (simp add: flushed_def)
qed

lemma slot_holds_stored:
  assumes "slot_holds k tb cb td cd (slot s (sn, sensor))"
  shows "time_on_disk s sn sensor = flushed k td" and "cap_on_disk s sn sensor = flushed k cd"
    and "time_buffer s sn sensor = lastn HISTORY_SIZE tb"
    and "cap_buffer s sn sensor = lastn HISTORY_SIZE cb"
  using assms
  by (auto simp: slot_holds_iff slot_def time_on_disk_def cap_on_disk_def time_buffer_def
      cap_buffer_def flushed_short)

lemma session_start_inv: "recorder_inv ctrls [] (session_start ctrls)"
  using HISTORY_SIZE_pos
  by (auto simp: recorder_inv_def sensor_inv_def slot_holds_iff slot_def lookup2_def
      session_start_def initialize_hdf5_file_def init_recorder_def list_all_iff lastn_def
      time_samples_def cap_samples_def)

lemma slot_loop_counter: "slot (s\<lparr>loop_counter := c\<rparr>) = slot s"
  by (rule ext) (simp add: slot_def)

lemma slot_recording: "slot (s\<lparr>recording := b\<rparr>) = slot s"
  by (rule ext) (simp add: slot_def)

lemma iteration_inv:
  assumes "distinct ctrls" and "recorder_inv ctrls rds s" and "good_reads ctrls rd"
  shows "\<exists>s'. iteration rd s = Inr s' \<and> recorder_inv ctrls (rds @ [rd]) s' \<and>
           recording s' = recording s"
proof -
  from iteration_step [OF assms] obtain s1 s2 where
    s: "acquire rd s = Inr s1" "flush s1 = Inr s2" "frame s2 = frame s"
    and H: "\<And>sn idx. sn \<in> set ctrls \<Longrightarrow> idx < length (sensors_of sn) \<Longrightarrow>
              slot_holds (Suc (length rds))
                (time_samples (rds @ [rd]) sn idx) (cap_samples (rds @ [rd]) sn idx)
                (time_samples (rds @ [rd]) sn idx) (cap_samples (rds @ [rd]) sn idx)
                (slot s2 (sn, sensors_of sn ! idx))"
    by blast
  let ?s' = "s2\<lparr>loop_counter := loop_counter s2 + 1\<rparr>"
  have it: "iteration rd s = Inr ?s'" using s(1,2) by (simp add: iteration_def)
  from assms(2) s(3) have "controllers ?s' = ctrls" "loop_counter ?s' = length (rds @ [rd])"
    "recording ?s' = recording s"
    by (simp_all add: recorder_inv_def frame_def)
  moreover have "list_all (\<lambda>sn. list_all (sensor_inv (rds @ [rd]) ?s' sn)
                   [0..<length (sensors_of sn)]) ctrls"
    using H by (simp add: list_all_iff sensor_inv_def slot_loop_counter)
  ultimately show ?thesis using it by (simp add: recorder_inv_def)
qed

lemma run_inv:
  assumes "distinct ctrls" and "recorder_inv ctrls rds0 s" and "list_all (good_reads ctrls) rds"
  shows "\<exists>s'. for_each iteration rds s = Inr s' \<and> recorder_inv ctrls (rds0 @ rds) s' \<and>
           recording s' = recording s \<and>
           (recording s \<longrightarrow> record_loop (map (Pair False) rds @ rest) s = record_loop rest s')"
  using assms(2,3)
proof (induction rds arbitrary: rds0 s)
  case Nil
  then show ?case by simp
next
  case (Cons rd rds)
  from Cons.prems(2) have g: "good_reads ctrls rd" and gs: "list_all (good_reads ctrls) rds"
    by simp_all
  from iteration_inv [OF assms(1) Cons.prems(1) g] obtain s1 where
    s1: "iteration rd s = Inr s1" "recorder_inv ctrls (rds0 @ [rd]) s1" "recording s1 = recording s"
    by blast
  from Cons.IH [OF s1(2) gs] obtain s' where
    s': "for_each iteration rds s1 = Inr s'" "recorder_inv ctrls ((rds0 @ [rd]) @ rds) s'"
      "recording s' = recording s1"
      "recording s1 \<longrightarrow> record_loop (map (Pair False) rds @ rest) s1 = record_loop rest s'"
    by blast
  show ?case using s1 s' by simp
qed

lemma record_loop_stopped: "\<not> recording s \<Longrightarrow> record_loop schedule s = Inr s"
  by (cases schedule) simp_all

lemma sensor_inv_recording: "sensor_inv rds (s\<lparr>recording := b\<rparr>) = sensor_inv rds s"
  by (intro ext) (simp add: sensor_inv_def slot_recording)

lemma recorder_inv_stop: "recorder_inv ctrls rds (stop s) = recorder_inv ctrls rds s"
  by (simp add: recorder_inv_def sensor_inv_recording stop_def)

text \<open>
  A session in which \<open>stop()\<close> is first called during the iteration that reads \<open>rd\<close>:
  that iteration completes, the loop exits, and no later entry of the schedule is used.
\<close>

lemma session_end:
  assumes "distinct ctrls" and "list_all (good_reads ctrls) (rds @ [rd])"
  shows "\<exists>s. record_sensors (stopped_after rds rd rest) (init_recorder ctrls) = Inr s \<and>
           \<not> recording s \<and> recorder_inv ctrls (rds @ [rd]) s"
proof -
  from assms(2) have gs: "list_all (good_reads ctrls) rds" and g: "good_reads ctrls rd"
    by simp_all
  let ?s0 = "session_start ctrls"
  have rec0: "recording ?s0" by (simp add: session_start_def initialize_hdf5_file_def)
  from run_inv [OF assms(1) session_start_inv gs, of "(True, rd) # rest"] rec0 obtain s1 where
    s1: "recorder_inv ctrls rds s1" "recording s1"
      "record_loop (stopped_after rds rd rest) ?s0 = record_loop ((True, rd) # rest) s1"
    by (auto simp: stopped_after_def)
  from s1(1) have "recorder_inv ctrls rds (stop s1)" by (simp add: recorder_inv_stop)
  from iteration_inv [OF assms(1) this g] obtain s where
    s: "iteration rd (stop s1) = Inr s" "recorder_inv ctrls (rds @ [rd]) s" "\<not> recording s"
    by (auto simp: stop_def)
  have "record_loop ((True, rd) # rest) s1 = Inr s"
    using s1(2) s(1,3) by (simp add: record_loop_stopped)
  then have "record_sensors (stopped_after rds rd rest) (init_recorder ctrls) = Inr s"
    using s1(3) by (simp add: record_sensors_def session_start_def)
  then show ?thesis using s(2,3) by blast
qed

subsection \<open>Sessions that end by a stop or by a failed read\<close>
















section \<open>The recorder: flushes and the end of a session\<close>

lemma flush_condition:
  assumes "k = HISTORY_SIZE \<or> (0 < k \<and> k mod HISTORY_SIZE = 0)"
  shows "HISTORY_SIZE \<le> k \<and> k mod HISTORY_SIZE = 0"
proof -
  from assms have md: "k mod HISTORY_SIZE = 0" by auto
  from assms HISTORY_SIZE_pos have "0 < k" by auto
  moreover have "HISTORY_SIZE dvd k" using md by (simp add: mod_eq_0_iff_dvd)
  ultimately have "HISTORY_SIZE \<le> k" by (intro dvd_imp_le) simp_all
  with md show ?thesis by simp
qed

text \<open>
  C2.  Take any reachable iteration whose counter triggers a flush, the first one
  (\<open>loop_counter = HISTORY_SIZE\<close>, creation) or a later one (a positive multiple,
  append).  After the reads of that iteration were appended the flush succeeds; right
  after it both arrays of every sensor have length \<open>loop_counter\<close>, and they consist of
  what was on disk before, of length \<open>loop_counter - HISTORY_SIZE\<close>, followed by the
  buffered batch of \<open>HISTORY_SIZE\<close> samples: the batch lies at offset
  \<open>loop_counter - HISTORY_SIZE\<close>.
\<close>

theorem flush_length_and_offset:
  assumes "distinct ctrls" and "list_all (good_reads ctrls) (rds @ [rd])"
    and "sn \<in> set ctrls" and "idx < length (sensors_of sn)"
    and "length rds = HISTORY_SIZE \<or> (0 < length rds \<and> length rds mod HISTORY_SIZE = 0)"
  shows "\<exists>s s1 s2.
           for_each iteration rds (session_start ctrls) = Inr s \<and>
           acquire rd s = Inr s1 \<and> flush s1 = Inr s2 \<and>
           loop_counter s1 = length rds \<and> loop_counter s2 = length rds \<and>
           length (time_on_disk s2 sn (sensors_of sn ! idx)) = loop_counter s2 \<and>
           length (cap_on_disk s2 sn (sensors_of sn ! idx)) = loop_counter s2 \<and>
           length (time_on_disk s1 sn (sensors_of sn ! idx)) = loop_counter s1 - HISTORY_SIZE \<and>
           length (cap_on_disk s1 sn (sensors_of sn ! idx)) = loop_counter s1 - HISTORY_SIZE \<and>
           length (time_buffer s1 sn (sensors_of sn ! idx)) = HISTORY_SIZE \<and>
           length (cap_buffer s1 sn (sensors_of sn ! idx)) = HISTORY_SIZE \<and>
           time_on_disk s2 sn (sensors_of sn ! idx) =
             time_on_disk s1 sn (sensors_of sn ! idx) @ time_buffer s1 sn (sensors_of sn ! idx) \<and>
           cap_on_disk s2 sn (sensors_of sn ! idx) =
             cap_on_disk s1 sn (sensors_of sn ! idx) @ cap_buffer s1 sn (sensors_of sn ! idx)"
proof -
  let ?k = "length rds" and ?n = HISTORY_SIZE and ?sensor = "sensors_of sn ! idx"
  let ?T = "time_samples rds sn idx" and ?C = "cap_samples rds sn idx"
  let ?T' = "time_samples (rds @ [rd]) sn idx" and ?C' = "cap_samples (rds @ [rd]) sn idx"
  from assms(2) have gs: "list_all (good_reads ctrls) rds" and g: "good_reads ctrls rd"
    by simp_all
  from flush_condition [OF assms(5)] have le: "?n \<le> ?k" and md: "?k mod ?n = 0" by simp_all
  from run_inv [OF assms(1) session_start_inv gs, of "[]"] obtain s where
    s: "for_each iteration rds (session_start ctrls) = Inr s" "recorder_inv ctrls rds s"
    by auto
  from iteration_step [OF assms(1) s(2) g] assms(3,4) obtain s1 s2 where
    st: "acquire rd s = Inr s1" "flush s1 = Inr s2" "frame s1 = frame s" "frame s2 = frame s"
    and h1: "slot_holds ?k ?T' ?C' ?T ?C (slot s1 (sn, ?sensor))"
    and h2: "slot_holds (Suc ?k) ?T' ?C' ?T' ?C' (slot s2 (sn, ?sensor))"
    by blast
  from s(2) st(3,4) have c: "loop_counter s1 = ?k" "loop_counter s2 = ?k"
    by (simp_all add: recorder_inv_def frame_def)
  have lT: "length ?T = ?k" and lC: "length ?C = ?k" by (simp_all add: length_samples)
  have T': "?T' = ?T @ [fst (projr (rd sn)) ! idx]" and C': "?C' = ?C @ [snd (projr (rd sn)) ! idx]"
    by (simp_all add: samples_snoc)
  note d1 = slot_holds_stored [OF h1] and d2 = slot_holds_stored [OF h2]
  have ft: "flushed (Suc ?k) ?T' = flushed ?k ?T @ lastn ?n ?T'"
    unfolding T' using lT le md by (rule flushed_flush(1))
  have fc: "flushed (Suc ?k) ?C' = flushed ?k ?C @ lastn ?n ?C'"
    unfolding C' using lC le md by (rule flushed_flush(1))
  have lt: "length (flushed ?k ?T) = ?k - ?n" using lT le md by (rule flushed_flush(2))
  have lc: "length (flushed ?k ?C) = ?k - ?n" using lC le md by (rule flushed_flush(2))
  have bt: "length (lastn ?n ?T') = ?n" and bc: "length (lastn ?n ?C') = ?n"
    using le by (simp_all add: length_lastn length_samples)
  show ?thesis
    using s(1) st(1,2) c le
    by (intro exI [of _ s] exI [of _ s1] exI [of _ s2])
       (simp add: d1 d2 ft fc lt lc bt bc)
qed

lemma example_read_good: "good_reads [''FT232H0''] example_read"
  by (simp add: good_reads_def example_read_def sensors_of_def SERIAL_NUMBER_SENSOR_MAP_def)

lemma example_sensors: "length (sensors_of ''FT232H0'') = 6"
  by (simp add: sensors_of_def SERIAL_NUMBER_SENSOR_MAP_def)

theorem flush_length_and_offset_witness:
  "distinct [''FT232H0''] \<and>
   list_all (good_reads [''FT232H0'']) (replicate HISTORY_SIZE example_read @ [example_read]) \<and>
   ''FT232H0'' \<in> set [''FT232H0''] \<and> 0 < length (sensors_of ''FT232H0'') \<and>
   length (replicate HISTORY_SIZE example_read) = HISTORY_SIZE \<and>
   (\<exists>s s1 s2.
      for_each iteration (replicate HISTORY_SIZE example_read) (session_start [''FT232H0''])
        = Inr s \<and>
      acquire example_read s = Inr s1 \<and> flush s1 = Inr s2 \<and>
      loop_counter s2 = HISTORY_SIZE \<and>
      length (time_on_disk s2 ''FT232H0'' (sensors_of ''FT232H0'' ! 0)) = loop_counter s2 \<and>
      time_on_disk s2 ''FT232H0'' (sensors_of ''FT232H0'' ! 0) =
        time_on_disk s1 ''FT232H0'' (sensors_of ''FT232H0'' ! 0) @
        time_buffer s1 ''FT232H0'' (sensors_of ''FT232H0'' ! 0))"
proof -
  have h1: "distinct [''FT232H0'']" by simp
  have h2: "list_all (good_reads [''FT232H0''])
              (replicate HISTORY_SIZE example_read @ [example_read])"
    using example_read_good by (simp add: list_all_iff)
  have h3: "''FT232H0'' \<in> set [''FT232H0'']" by simp
  have h4: "0 < length (sensors_of ''FT232H0'')" by (simp add: example_sensors)
  have h5: "length (replicate HISTORY_SIZE example_read) = HISTORY_SIZE \<or>
            (0 < length (replicate HISTORY_SIZE example_read) \<and>
             length (replicate HISTORY_SIZE example_read) mod HISTORY_SIZE = 0)" by simp
  from flush_length_and_offset [OF h1 h2 h3 h4 h5] h1 h2 h3 h4 show ?thesis
    by (simp del: replicate.simps) blast
qed





lemma unflushed_facts:
  assumes "length xs = k"
  shows "length (unflushed k xs) \<le> HISTORY_SIZE"
    and "suffix (unflushed k xs) (lastn HISTORY_SIZE xs)"
    and "\<exists>pre. xs = pre @ flushed k xs @ unflushed k xs \<and> length pre \<le> 1"
proof -
  let ?n = HISTORY_SIZE and ?q = "(k - 1) div HISTORY_SIZE"
  show "length (unflushed k xs) \<le> ?n"
  proof (cases "k \<le> ?n")
    case True
    then show ?thesis using assms by (simp add: unflushed_def)
  next
    case False
    have "(k - 1) mod ?n < ?n" using HISTORY_SIZE_pos by simp
    moreover have "k - 1 = ?n * ?q + (k - 1) mod ?n" by simp
    ultimately have "k - 1 < ?n * ?q + ?n" by linarith
    then show ?thesis using False assms by (simp add: unflushed_def)
  qed
  show "suffix (unflushed k xs) (lastn ?n xs)"
  proof (cases "k \<le> ?n")
    case True
    then show ?thesis using assms by (simp add: unflushed_def lastn_def)
  next
    case False
    have "(k - 1) mod ?n < ?n" using HISTORY_SIZE_pos by simp
    moreover have "k - 1 = ?n * ?q + (k - 1) mod ?n" by simp
    ultimately have "k - 1 < ?n * ?q + ?n" by linarith
    then have le: "k - ?n \<le> ?n * ?q + 1" by simp
    have "drop (?n * ?q + 1) xs = drop (?n * ?q + 1 - (k - ?n)) (drop (k - ?n) xs)"
      using le by simp
    then have "suffix (drop (?n * ?q + 1) xs) (drop (k - ?n) xs)"
      by (simp only: suffix_drop)
    then show ?thesis using False assms by (simp add: unflushed_def lastn_def)
  qed
  show "\<exists>pre. xs = pre @ flushed k xs @ unflushed k xs \<and> length pre \<le> 1"
  proof (cases "k \<le> ?n")
    case True
    then have "xs = [] @ flushed k xs @ unflushed k xs"
      by (simp add: flushed_short unflushed_def)
    then show ?thesis by (intro exI [of _ "[]"]) simp
  next
    case False
    have "drop 1 xs = take (?n * ?q) (drop 1 xs) @ drop (?n * ?q) (drop 1 xs)"
      by (rule append_take_drop_id [symmetric])
    moreover have "drop (?n * ?q) (drop 1 xs) = unflushed k xs"
      using False by (simp add: unflushed_def)
    ultimately have "drop 1 xs = flushed k xs @ unflushed k xs" by (simp add: flushed_def)
    then have "xs = take 1 xs @ flushed k xs @ unflushed k xs"
      by (metis append_take_drop_id)
    then show ?thesis by (intro exI [of _ "take 1 xs"]) simp
  qed
qed

text \<open>
  C10.  When \<open>stop()\<close> is called during an iteration, that iteration completes, the loop
  exits at the next check and nothing else is written, whatever the rest of the schedule
  holds.  For every sensor the samples appended after the most recent flush, at most
  \<open>HISTORY_SIZE\<close> of them, are the tail of its ring buffers, and the arrays on disk end
  where these samples begin: the samples read are at most one leading sample, then the
  stored ones, then the unflushed ones.
\<close>

theorem stop_skips_final_flush:
  assumes "distinct ctrls" and "list_all (good_reads ctrls) (rds @ [rd])"
    and "sn \<in> set ctrls" and "idx < length (sensors_of sn)"
  shows "\<exists>s. record_sensors (stopped_after rds rd rest) (init_recorder ctrls) = Inr s \<and>
           \<not> recording s \<and> loop_counter s = Suc (length rds) \<and>
           length (unflushed (loop_counter s) (time_samples (rds @ [rd]) sn idx)) \<le> HISTORY_SIZE \<and>
           suffix (unflushed (loop_counter s) (time_samples (rds @ [rd]) sn idx))
             (time_buffer s sn (sensors_of sn ! idx)) \<and>
           suffix (unflushed (loop_counter s) (cap_samples (rds @ [rd]) sn idx))
             (cap_buffer s sn (sensors_of sn ! idx)) \<and>
           (\<exists>pre. time_samples (rds @ [rd]) sn idx =
                    pre @ time_on_disk s sn (sensors_of sn ! idx) @
                    unflushed (loop_counter s) (time_samples (rds @ [rd]) sn idx) \<and>
                  length pre \<le> 1) \<and>
           (\<exists>pre. cap_samples (rds @ [rd]) sn idx =
                    pre @ cap_on_disk s sn (sensors_of sn ! idx) @
                    unflushed (loop_counter s) (cap_samples (rds @ [rd]) sn idx) \<and>
                  length pre \<le> 1)"
proof -
  let ?k = "Suc (length rds)"
  let ?T = "time_samples (rds @ [rd]) sn idx" and ?C = "cap_samples (rds @ [rd]) sn idx"
  from session_end [OF assms(1,2), of rest] obtain s where
    s: "record_sensors (stopped_after rds rd rest) (init_recorder ctrls) = Inr s"
      "\<not> recording s" "recorder_inv ctrls (rds @ [rd]) s"
    by blast
  from s(3) have c: "loop_counter s = ?k" by (simp add: recorder_inv_def)
  from recorder_inv_sensor [OF s(3) assms(3,4)]
  have h: "slot_holds ?k ?T ?C ?T ?C (slot s (sn, sensors_of sn ! idx))" by simp
  note d = slot_holds_stored [OF h]
  have lT: "length ?T = ?k" and lC: "length ?C = ?k" by (simp_all add: length_samples)
  show ?thesis
    using s(1,2) c unflushed_facts [OF lT] unflushed_facts(2,3) [OF lC]
    by (intro exI [of _ s]) (simp add: d)
qed

theorem stop_skips_final_flush_witness:
  "distinct [''FT232H0''] \<and> list_all (good_reads [''FT232H0'']) ([] @ [example_read]) \<and>
   ''FT232H0'' \<in> set [''FT232H0''] \<and> 0 < length (sensors_of ''FT232H0'') \<and>
   (\<exists>s. record_sensors (stopped_after [] example_read [(False, example_read)])
          (init_recorder [''FT232H0'']) = Inr s \<and>
        \<not> recording s \<and> loop_counter s = Suc 0 \<and>
        suffix (unflushed (loop_counter s) (time_samples ([] @ [example_read]) ''FT232H0'' 0))
          (time_buffer s ''FT232H0'' (sensors_of ''FT232H0'' ! 0)))"
proof -
  have h1: "distinct [''FT232H0'']" by simp
  have h2: "list_all (good_reads [''FT232H0'']) ([] @ [example_read])"
    using example_read_good by simp
  have h3: "''FT232H0'' \<in> set [''FT232H0'']" by simp
  have h4: "0 < length (sensors_of ''FT232H0'')" by (simp add: example_sensors)
  from stop_skips_final_flush [OF h1 h2 h3 h4, of "[(False, example_read)]"] h1 h2 h3 h4
  show ?thesis by simp blast
qed
section \<open>Cycle metadata: timestamps are written once\<close>

lemma cycle_name_distinct:
  "cycle_name ''start_time'' c \<noteq> cycle_name ''start_vol'' c'"
  "cycle_name ''start_time'' c \<noteq> cycle_name ''stop_vol'' c'"
  "cycle_name ''start_time'' c \<noteq> cycle_name ''weight'' c'"
  "cycle_name ''stop_time'' c \<noteq> cycle_name ''start_vol'' c'"
  "cycle_name ''stop_time'' c \<noteq> cycle_name ''stop_vol'' c'"
  "cycle_name ''stop_time'' c \<noteq> cycle_name ''weight'' c'"
  by (simp_all add: cycle_name_def)

lemma write_once_given: "write_once name (Some x) grp name \<noteq> None"
  by (simp add: write_once_def)

lemma overwrite_positive_other:
  "name' \<noteq> name \<Longrightarrow> overwrite_positive name v grp name' = grp name'"
  by (cases v) (simp_all add: overwrite_positive_def)

text \<open>What a successful call stores, in terms of the group it found or created.\<close>

lemma write_sensor_metadata_result:
  assumes "write_sensor_metadata sid st sp sv ev w c f = Inr f'"
  shows "\<exists>sn grp. board_of sid = Inr sn \<and>
           grp = (case lookup2 f sn sid of None \<Rightarrow> Map.empty | Some g \<Rightarrow> g) \<and>
           lookup2 f' sn sid =
             Some (overwrite_positive (cycle_name ''weight'' c) w
                    (overwrite_positive (cycle_name ''stop_vol'' c) ev
                      (overwrite_positive (cycle_name ''start_vol'' c) sv
                        (write_once (cycle_name ''stop_time'' c) sp
                          (write_once (cycle_name ''start_time'' c) st grp))))) \<and>
           (\<forall>sn' sid'. (sn', sid') \<noteq> (sn, sid) \<longrightarrow> lookup2 f' sn' sid' = lookup2 f sn' sid')"
proof -
  from assms obtain sn where sn: "board_of sid = Inr sn"
    by (auto simp: write_sensor_metadata_def split: sum.splits)
  show ?thesis
  proof (cases "lookup2 f sn sid")
    case (Some g)
    with assms sn show ?thesis
      by (auto simp: write_sensor_metadata_def lookup2_update2_same lookup2_update2_other)
  next
    case None
    with assms sn obtain bg where bg: "f sn = Some bg"
      by (auto simp: write_sensor_metadata_def split: option.splits)
    let ?f1 = "f(sn \<mapsto> bg(sid \<mapsto> Map.empty))"
    have l1: "lookup2 ?f1 sn sid = Some Map.empty" by (simp add: lookup2_def)
    have o1: "lookup2 ?f1 sn' sid' = lookup2 f sn' sid'" if "(sn', sid') \<noteq> (sn, sid)" for sn' sid'
      using that bg by (auto simp: lookup2_def)
    from assms sn None bg l1 have
      "f' = update2 ?f1 sn sid
              (overwrite_positive (cycle_name ''weight'' c) w
                (overwrite_positive (cycle_name ''stop_vol'' c) ev
                  (overwrite_positive (cycle_name ''start_vol'' c) sv
                    (write_once (cycle_name ''stop_time'' c) sp
                      (write_once (cycle_name ''start_time'' c) st Map.empty)))))"
      by (simp add: write_sensor_metadata_def)
    then show ?thesis using sn None l1 o1
      by (auto simp: lookup2_update2_same lookup2_update2_other)
  qed
qed

lemma write_once_absorbed: "(v \<noteq> None \<longrightarrow> grp name \<noteq> None) \<Longrightarrow> write_once name v grp = grp"
  by (cases v) (auto simp: write_once_def)

lemma stored_timestamps_absorb:
  fixes grp :: h5group
  assumes g1_def: "g1 = overwrite_positive (cycle_name ''weight'' c) w
                 (overwrite_positive (cycle_name ''stop_vol'' c) ev
                   (overwrite_positive (cycle_name ''start_vol'' c) sv
                     (write_once (cycle_name ''stop_time'' c) sp
                       (write_once (cycle_name ''start_time'' c) st grp))))"
  shows "write_once (cycle_name ''stop_time'' c) sp
           (write_once (cycle_name ''start_time'' c) st g1) = g1"
proof -
  have a: "st \<noteq> None \<longrightarrow> g1 (cycle_name ''start_time'' c) \<noteq> None"
  proof
    assume "st \<noteq> None"
    then obtain x where x: "st = Some x" by auto
    have "g1 (cycle_name ''start_time'' c) =
            write_once (cycle_name ''stop_time'' c) sp
              (write_once (cycle_name ''start_time'' c) st grp) (cycle_name ''start_time'' c)"
      unfolding g1_def by (simp add: overwrite_positive_other cycle_name_distinct)
    also have "\<dots> \<noteq> None"
      unfolding x by (cases sp) (auto simp: write_once_def)
    finally show "g1 (cycle_name ''start_time'' c) \<noteq> None" .
  qed
  have b: "sp \<noteq> None \<longrightarrow> g1 (cycle_name ''stop_time'' c) \<noteq> None"
  proof
    assume "sp \<noteq> None"
    then obtain y where y: "sp = Some y" by auto
    have "g1 (cycle_name ''stop_time'' c) =
            write_once (cycle_name ''stop_time'' c) sp
              (write_once (cycle_name ''start_time'' c) st grp) (cycle_name ''stop_time'' c)"
      unfolding g1_def by (simp add: overwrite_positive_other cycle_name_distinct)
    also have "\<dots> \<noteq> None" unfolding y by (rule write_once_given)
    finally show "g1 (cycle_name ''stop_time'' c) \<noteq> None" .
  qed
  have "write_once (cycle_name ''start_time'' c) st g1 = g1" using a by (rule write_once_absorbed)
  moreover have "write_once (cycle_name ''stop_time'' c) sp g1 = g1"
    using b by (rule write_once_absorbed)
  ultimately show ?thesis by simp
qed

lemma write_once_keeps: "grp nm \<noteq> None \<Longrightarrow> write_once name v grp nm = grp nm"
  by (cases v) (auto simp: write_once_def)

lemma write_once_other: "name' \<noteq> name \<Longrightarrow> write_once name v grp name' = grp name'"
  by (cases v) (simp_all add: write_once_def)

lemma cycle_name_start_stop:
  "cycle_name ''start_time'' c \<noteq> cycle_name ''stop_time'' c'"
  by (simp add: cycle_name_def)

text \<open>A call stores a timestamp it is given where none is stored, and keeps the stored one
  otherwise.\<close>

lemma write_stores_given:
  assumes "write_sensor_metadata sid st sp sv ev w c f = Inr f'" and "board_of sid = Inr sn"
  shows "st = Some x \<Longrightarrow>
           field f' sn sid (cycle_name ''start_time'' c) =
             (case field f sn sid (cycle_name ''start_time'' c) of
                None \<Rightarrow> Some (Num x) | Some v \<Rightarrow> Some v)"
    and "sp = Some y \<Longrightarrow>
           field f' sn sid (cycle_name ''stop_time'' c) =
             (case field f sn sid (cycle_name ''stop_time'' c) of
                None \<Rightarrow> Some (Num y) | Some v \<Rightarrow> Some v)"
proof -
  from write_sensor_metadata_result [OF assms(1)] assms(2) obtain grp where
    grp: "grp = (case lookup2 f sn sid of None \<Rightarrow> Map.empty | Some g \<Rightarrow> g)"
    and new: "lookup2 f' sn sid =
             Some (overwrite_positive (cycle_name ''weight'' c) w
                    (overwrite_positive (cycle_name ''stop_vol'' c) ev
                      (overwrite_positive (cycle_name ''start_vol'' c) sv
                        (write_once (cycle_name ''stop_time'' c) sp
                          (write_once (cycle_name ''start_time'' c) st grp)))))"
    by auto
  have old: "field f sn sid nm = grp nm" for nm
    unfolding grp by (cases "lookup2 f sn sid") (simp_all add: field_def)
  show "field f' sn sid (cycle_name ''start_time'' c) =
          (case field f sn sid (cycle_name ''start_time'' c) of
             None \<Rightarrow> Some (Num x) | Some v \<Rightarrow> Some v)"
    if "st = Some x"
    unfolding old using new that
    by (simp add: field_def overwrite_positive_other cycle_name_distinct write_once_other
        cycle_name_start_stop write_once_def split: option.splits)
  show "field f' sn sid (cycle_name ''stop_time'' c) =
          (case field f sn sid (cycle_name ''stop_time'' c) of
             None \<Rightarrow> Some (Num y) | Some v \<Rightarrow> Some v)"
    if "sp = Some y"
  proof -
    have "write_once (cycle_name ''start_time'' c) st grp (cycle_name ''stop_time'' c) =
            grp (cycle_name ''stop_time'' c)"
      using cycle_name_start_stop [of c c] by (intro write_once_other) simp
    then show ?thesis
      unfolding old using new that
      by (simp add: field_def overwrite_positive_other cycle_name_distinct write_once_def
          split: option.splits)
  qed
qed

text \<open>A call never changes a timestamp field that is already stored, whatever it is given.\<close>

lemma write_keeps_present:
  assumes "write_sensor_metadata sid st sp sv ev w c f = Inr f'"
  shows "field f sn' sid' (cycle_name ''start_time'' c') \<noteq> None \<Longrightarrow>
           field f' sn' sid' (cycle_name ''start_time'' c') =
           field f sn' sid' (cycle_name ''start_time'' c')"
    and "field f sn' sid' (cycle_name ''stop_time'' c') \<noteq> None \<Longrightarrow>
           field f' sn' sid' (cycle_name ''stop_time'' c') =
           field f sn' sid' (cycle_name ''stop_time'' c')"
proof -
  from write_sensor_metadata_result [OF assms] obtain sn grp where
    grp: "grp = (case lookup2 f sn sid of None \<Rightarrow> Map.empty | Some g \<Rightarrow> g)"
    and new: "lookup2 f' sn sid =
             Some (overwrite_positive (cycle_name ''weight'' c) w
                    (overwrite_positive (cycle_name ''stop_vol'' c) ev
                      (overwrite_positive (cycle_name ''start_vol'' c) sv
                        (write_once (cycle_name ''stop_time'' c) sp
                          (write_once (cycle_name ''start_time'' c) st grp)))))"
    and other: "\<And>sn' sid'. (sn', sid') \<noteq> (sn, sid) \<Longrightarrow> lookup2 f' sn' sid' = lookup2 f sn' sid'"
    by blast
  have keep: "write_once (cycle_name ''stop_time'' c) sp
                (write_once (cycle_name ''start_time'' c) st grp) nm = grp nm"
    if "grp nm \<noteq> None" for nm
    using that by (simp add: write_once_keeps)
  have here: "field f' sn sid nm = field f sn sid nm"
    if present: "field f sn sid nm \<noteq> None"
      and d: "nm \<noteq> cycle_name ''weight'' c" "nm \<noteq> cycle_name ''stop_vol'' c"
             "nm \<noteq> cycle_name ''start_vol'' c" for nm
  proof -
    from present obtain g where g: "lookup2 f sn sid = Some g" and gn: "g nm \<noteq> None"
      by (auto simp: field_def split: option.splits)
    have "grp = g" using grp g by simp
    then show ?thesis using new g gn d keep [of nm]
      by (simp add: field_def overwrite_positive_other)
  qed
  show "field f' sn' sid' (cycle_name ''start_time'' c') =
          field f sn' sid' (cycle_name ''start_time'' c')"
    if "field f sn' sid' (cycle_name ''start_time'' c') \<noteq> None"
  proof (cases "(sn', sid') = (sn, sid)")
    case True
    then show ?thesis using that here [of "cycle_name ''start_time'' c'"]
      by (simp add: cycle_name_distinct)
  next
    case False
    then show ?thesis using other by (simp add: field_def)
  qed
  show "field f' sn' sid' (cycle_name ''stop_time'' c') =
          field f sn' sid' (cycle_name ''stop_time'' c')"
    if "field f sn' sid' (cycle_name ''stop_time'' c') \<noteq> None"
  proof (cases "(sn', sid') = (sn, sid)")
    case True
    then show ?thesis using that here [of "cycle_name ''stop_time'' c'"]
      by (simp add: cycle_name_distinct)
  next
    case False
    then show ?thesis using other by (simp add: field_def)
  qed
qed

text \<open>
  C8.  After a successful call, a second call for the same sensor and cycle succeeds,
  whatever timestamps, volumes and weight it is given, and
  \<^item> it changes no \<open>start_time*\<close> or \<open>stop_time*\<close> field that is stored, of any
    sensor and cycle: a timestamp is written only where none is present;
  \<^item> a timestamp given to the first call is stored by it where none was stored (what was
    stored stays), and is still the stored value after the second call, also when the
    second call gives another one;
  \<^item> with the same start and stop timestamps as the first call, the second call leaves
    every \<open>start_time*\<close> and \<open>stop_time*\<close> field as it was, stored or not.
\<close>

theorem timestamps_written_once:
  assumes "write_sensor_metadata sid st sp sv ev w c f = Inr f1"
  shows "\<exists>f2. write_sensor_metadata sid st' sp' sv' ev' w' c f1 = Inr f2 \<and>
           (\<forall>sn' sid' c'.
              (field f1 sn' sid' (cycle_name ''start_time'' c') \<noteq> None \<longrightarrow>
                 field f2 sn' sid' (cycle_name ''start_time'' c') =
                 field f1 sn' sid' (cycle_name ''start_time'' c')) \<and>
              (field f1 sn' sid' (cycle_name ''stop_time'' c') \<noteq> None \<longrightarrow>
                 field f2 sn' sid' (cycle_name ''stop_time'' c') =
                 field f1 sn' sid' (cycle_name ''stop_time'' c'))) \<and>
           (\<forall>sn. board_of sid = Inr sn \<longrightarrow>
              (\<forall>x. st = Some x \<longrightarrow>
                 field f1 sn sid (cycle_name ''start_time'' c) =
                   (case field f sn sid (cycle_name ''start_time'' c) of
                      None \<Rightarrow> Some (Num x) | Some v \<Rightarrow> Some v) \<and>
                 field f2 sn sid (cycle_name ''start_time'' c) =
                 field f1 sn sid (cycle_name ''start_time'' c)) \<and>
              (\<forall>y. sp = Some y \<longrightarrow>
                 field f1 sn sid (cycle_name ''stop_time'' c) =
                   (case field f sn sid (cycle_name ''stop_time'' c) of
                      None \<Rightarrow> Some (Num y) | Some v \<Rightarrow> Some v) \<and>
                 field f2 sn sid (cycle_name ''stop_time'' c) =
                 field f1 sn sid (cycle_name ''stop_time'' c))) \<and>
           (st' = st \<and> sp' = sp \<longrightarrow>
              (\<forall>sn' sid' c'.
                 field f2 sn' sid' (cycle_name ''start_time'' c') =
                   field f1 sn' sid' (cycle_name ''start_time'' c') \<and>
                 field f2 sn' sid' (cycle_name ''stop_time'' c') =
                   field f1 sn' sid' (cycle_name ''stop_time'' c')))"
proof -
  from write_sensor_metadata_result [OF assms] obtain sn grp where
    sn: "board_of sid = Inr sn"
    and g1: "lookup2 f1 sn sid =
             Some (overwrite_positive (cycle_name ''weight'' c) w
                    (overwrite_positive (cycle_name ''stop_vol'' c) ev
                      (overwrite_positive (cycle_name ''start_vol'' c) sv
                        (write_once (cycle_name ''stop_time'' c) sp
                          (write_once (cycle_name ''start_time'' c) st grp)))))"
    by blast
  define g1 where "g1 = overwrite_positive (cycle_name ''weight'' c) w
                    (overwrite_positive (cycle_name ''stop_vol'' c) ev
                      (overwrite_positive (cycle_name ''start_vol'' c) sv
                        (write_once (cycle_name ''stop_time'' c) sp
                          (write_once (cycle_name ''start_time'' c) st grp))))"
  have l1: "lookup2 f1 sn sid = Some g1" using g1 by (simp add: g1_def)
  define g2 where "g2 = overwrite_positive (cycle_name ''weight'' c) w'
                    (overwrite_positive (cycle_name ''stop_vol'' c) ev'
                      (overwrite_positive (cycle_name ''start_vol'' c) sv'
                        (write_once (cycle_name ''stop_time'' c) sp'
                          (write_once (cycle_name ''start_time'' c) st' g1))))"
  have run: "write_sensor_metadata sid st' sp' sv' ev' w' c f1 = Inr (update2 f1 sn sid g2)"
    using sn l1 by (simp add: write_sensor_metadata_def g2_def)
  let ?f2 = "update2 f1 sn sid g2"
  note keep = write_keeps_present [OF run]
  note given = write_stores_given [OF assms sn]
  have start_stored: "field f1 sn sid (cycle_name ''start_time'' c) =
                        (case field f sn sid (cycle_name ''start_time'' c) of
                           None \<Rightarrow> Some (Num x) | Some v \<Rightarrow> Some v) \<and>
                      field ?f2 sn sid (cycle_name ''start_time'' c) =
                        field f1 sn sid (cycle_name ''start_time'' c)"
    if "st = Some x" for x
  proof -
    from given(1) [OF that]
    have g: "field f1 sn sid (cycle_name ''start_time'' c) =
               (case field f sn sid (cycle_name ''start_time'' c) of
                  None \<Rightarrow> Some (Num x) | Some v \<Rightarrow> Some v)" .
    then have "field f1 sn sid (cycle_name ''start_time'' c) \<noteq> None"
      by (simp split: option.splits)
    from keep(1) [OF this] g show ?thesis by simp
  qed
  have stop_stored: "field f1 sn sid (cycle_name ''stop_time'' c) =
                       (case field f sn sid (cycle_name ''stop_time'' c) of
                          None \<Rightarrow> Some (Num y) | Some v \<Rightarrow> Some v) \<and>
                     field ?f2 sn sid (cycle_name ''stop_time'' c) =
                       field f1 sn sid (cycle_name ''stop_time'' c)"
    if "sp = Some y" for y
  proof -
    from given(2) [OF that]
    have g: "field f1 sn sid (cycle_name ''stop_time'' c) =
               (case field f sn sid (cycle_name ''stop_time'' c) of
                  None \<Rightarrow> Some (Num y) | Some v \<Rightarrow> Some v)" .
    then have "field f1 sn sid (cycle_name ''stop_time'' c) \<noteq> None"
      by (simp split: option.splits)
    from keep(2) [OF this] g show ?thesis by simp
  qed
  have same: "field ?f2 sn' sid' (cycle_name ''start_time'' c') =
                field f1 sn' sid' (cycle_name ''start_time'' c') \<and>
              field ?f2 sn' sid' (cycle_name ''stop_time'' c') =
                field f1 sn' sid' (cycle_name ''stop_time'' c')"
    if eq: "st' = st" "sp' = sp" for sn' sid' c'
  proof (cases "(sn', sid') = (sn, sid)")
    case True
    have ab: "write_once (cycle_name ''stop_time'' c) sp
                (write_once (cycle_name ''start_time'' c) st g1) = g1"
      using g1_def by (rule stored_timestamps_absorb)
    have "g2 (cycle_name ''start_time'' c') = g1 (cycle_name ''start_time'' c')"
         "g2 (cycle_name ''stop_time'' c') = g1 (cycle_name ''stop_time'' c')"
      unfolding g2_def eq ab by (simp_all add: overwrite_positive_other cycle_name_distinct)
    then show ?thesis using True l1 by (simp add: field_def lookup2_update2_same)
  next
    case False
    then show ?thesis by (simp add: field_def lookup2_update2_other)
  qed
  show ?thesis
    using run keep start_stored stop_stored same sn
    by (intro exI [of _ ?f2]) (simp add: sn)
qed

lemma metadata_example:
  "write_sensor_metadata 1 (Some 5) (Some 9) (Some 10) None None 1
     (h5 (session_start [''FT232H0''])) =
   Inr (update2 (h5 (session_start [''FT232H0''])) ''FT232H0'' 1
         [''start_time1'' \<mapsto> Num 5, ''stop_time1'' \<mapsto> Num 9, ''start_vol1'' \<mapsto> Num 10])"
  by (simp add: write_sensor_metadata_def board_of_def SERIAL_NUMBER_SENSOR_MAP_def
      session_start_def initialize_hdf5_file_def init_recorder_def lookup2_def sensors_of_def
      write_once_def overwrite_positive_def cycle_name_def str_nat.simps)

lemma metadata_example_board: "board_of 1 = Inr ''FT232H0''"
  by (simp add: board_of_def SERIAL_NUMBER_SENSOR_MAP_def)

lemma metadata_example_field:
  "field (update2 (h5 (session_start [''FT232H0''])) ''FT232H0'' 1
           [''start_time1'' \<mapsto> Num 5, ''stop_time1'' \<mapsto> Num 9, ''start_vol1'' \<mapsto> Num 10])
     ''FT232H0'' 1 (cycle_name ''start_time'' 1) = Some (Num 5)"
  by (simp add: field_def update2_def lookup2_def session_start_def initialize_hdf5_file_def
      init_recorder_def sensors_of_def SERIAL_NUMBER_SENSOR_MAP_def cycle_name_def
      str_nat.simps)

text \<open>The first call stores the start timestamp 5 for cycle 1 of sensor 1; a second call
  that gives 7 succeeds and the stored value is still 5.\<close>

theorem timestamps_written_once_witness:
  "write_sensor_metadata 1 (Some 5) (Some 9) (Some 10) None None 1
     (h5 (session_start [''FT232H0''])) =
   Inr (update2 (h5 (session_start [''FT232H0''])) ''FT232H0'' 1
         [''start_time1'' \<mapsto> Num 5, ''stop_time1'' \<mapsto> Num 9, ''start_vol1'' \<mapsto> Num 10]) \<and>
   (\<exists>f2. write_sensor_metadata 1 (Some 7) (Some 8) (Some 3) (Some 2) None 1
           (update2 (h5 (session_start [''FT232H0''])) ''FT232H0'' 1
             [''start_time1'' \<mapsto> Num 5, ''stop_time1'' \<mapsto> Num 9, ''start_vol1'' \<mapsto> Num 10])
           = Inr f2 \<and>
         field f2 ''FT232H0'' 1 (cycle_name ''start_time'' 1) = Some (Num 5))"
proof -
  from timestamps_written_once [OF metadata_example, of "Some 7" "Some 8" "Some 3" "Some 2" None]
  obtain f2 where
    f2: "write_sensor_metadata 1 (Some 7) (Some 8) (Some 3) (Some 2) None 1
           (update2 (h5 (session_start [''FT232H0''])) ''FT232H0'' 1
             [''start_time1'' \<mapsto> Num 5, ''stop_time1'' \<mapsto> Num 9, ''start_vol1'' \<mapsto> Num 10])
           = Inr f2"
    and keep: "\<forall>sn. board_of 1 = Inr sn \<longrightarrow>
              (\<forall>x. Some (5::real) = Some x \<longrightarrow>
                 field f2 sn 1 (cycle_name ''start_time'' 1) =
                 field (update2 (h5 (session_start [''FT232H0''])) ''FT232H0'' 1
                   [''start_time1'' \<mapsto> Num 5, ''stop_time1'' \<mapsto> Num 9,
                    ''start_vol1'' \<mapsto> Num 10]) sn 1 (cycle_name ''start_time'' 1))"
    by blast
  from keep metadata_example_board metadata_example_field
  have "field f2 ''FT232H0'' 1 (cycle_name ''start_time'' 1) = Some (Num 5)" by simp
  with f2 metadata_example show ?thesis by blast
qed
section \<open>Trace reorganizer: the analysis window\<close>

subsection \<open>The numbers of the recorder's keys\<close>

lemma digit_char:
  assumes "d < 10"
  shows "is_digit (''0123456789'' ! d)" and "of_char (''0123456789'' ! d) = (48 + d :: nat)"
proof -
  from assms have d: "d = 0 \<or> d = 1 \<or> d = 2 \<or> d = 3 \<or> d = 4 \<or> d = 5 \<or> d = 6 \<or> d = 7 \<or>
                      d = 8 \<or> d = 9" by arith
  then show "is_digit (''0123456789'' ! d)"
    by (elim disjE) (simp_all add: is_digit_def)
  from d show "of_char (''0123456789'' ! d) = (48 + d :: nat)"
    by (elim disjE) simp_all
qed

lemma str_nat_digits: "str_nat n \<noteq> [] \<and> list_all is_digit (str_nat n)"
proof (induction n rule: str_nat.induct)
  case (1 n)
  show ?case
  proof (cases "n < 10")
    case True
    then show ?thesis by (subst (1 2) str_nat.simps) (simp add: digit_char)
  next
    case False
    with 1 have "list_all is_digit (str_nat (n div 10))" by simp
    with False show ?thesis by (subst (1 2) str_nat.simps) (simp add: digit_char)
  qed
qed

lemma int_of_digits_str_nat: "int_of_digits (str_nat n) = int n"
proof -
  have "foldl (\<lambda>a c. 10 * a + (of_char c - 48)) 0 (str_nat n) = n"
  proof (induction n rule: str_nat.induct)
    case (1 n)
    show ?case
    proof (cases "n < 10")
      case True
      then show ?thesis by (subst str_nat.simps) (simp add: digit_char)
    next
      case False
      with 1 have "foldl (\<lambda>a c. 10 * a + (of_char c - 48)) 0 (str_nat (n div 10)) = n div 10"
        by simp
      with False show ?thesis by (subst str_nat.simps) (simp add: digit_char)
    qed
  qed
  then show ?thesis by (simp add: int_of_digits_def)
qed

lemma str_nat_last: "last (str_nat n) \<noteq> CHR 0x0A"
proof -
  from str_nat_digits [of n] have "last (str_nat n) \<in> set (str_nat n)"
    and "\<forall>c\<in>set (str_nat n). is_digit c" by (simp_all add: list_all_iff)
  then have "is_digit (last (str_nat n))" by blast
  then show ?thesis by (auto simp: is_digit_def)
qed

lemma ascii_int_reads: "reads_ascii 4300 ascii_int"
  by (simp add: reads_ascii_def ascii_int_def)

text \<open>The key the recorder writes for a cycle carries the number of the cycle, the bare
  name of cycle 0 the number \<open>-1\<close>, and the stop key sought for it is the recorder's.\<close>

lemma start_time_num_cycle:
  assumes "reads_ascii limit dg" and "length (str_nat c) \<le> limit"
  shows "start_time_num dg (cycle_name ''start_time'' c) =
           Some (Inr (if c = 0 then - 1 else int c))"
proof (cases "c = 0")
  case True
  then show ?thesis by (simp add: start_time_num_def cycle_name_def)
next
  case False
  from assms str_nat_digits [of c] have "dg (str_nat c) = Some (Inr (int c))"
    by (simp add: reads_ascii_def int_of_digits_str_nat)
  with False str_nat_digits [of c] str_nat_last [of c] show ?thesis
    by (simp add: start_time_num_def cycle_name_def)
qed

lemma stop_key_cycle:
  "''stop'' @ drop 5 (cycle_name ''start_time'' c) = cycle_name ''stop_time'' c"
  by (simp add: cycle_name_def)

subsection \<open>The matching keys\<close>

lemma start_matches_no_error:
  assumes "\<forall>k\<in>set (map fst sd). \<forall>e. start_time_num dg k \<noteq> Some (Inl e)"
  shows "\<exists>ms. start_matches dg sd = Inr ms \<and>
           (\<forall>n k. (n, k) \<in> set ms \<longleftrightarrow>
                  k \<in> set (map fst sd) \<and> start_time_num dg k = Some (Inr n))"
  using assms
proof (induction sd)
  case Nil
  then show ?case by (simp add: start_matches_def)
next
  case (Cons a sd)
  then obtain ms where ms: "start_matches dg sd = Inr ms"
    and mem: "\<forall>n k. (n, k) \<in> set ms \<longleftrightarrow>
                k \<in> set (map fst sd) \<and> start_time_num dg k = Some (Inr n)"
    by auto
  from Cons.prems have ok: "\<forall>e. start_time_num dg (fst a) \<noteq> Some (Inl e)" by simp
  show ?case
  proof (cases "start_time_num dg (fst a)")
    case None
    with ms have "start_matches dg (a # sd) = Inr ms" by (simp add: start_matches_def)
    with mem None show ?thesis by auto
  next
    case (Some r)
    with ok obtain n where n: "start_time_num dg (fst a) = Some (Inr n)"
      by (cases r) auto
    with ms have "start_matches dg (a # sd) = Inr ((n, fst a) # ms)"
      by (simp add: start_matches_def)
    with mem n show ?thesis by auto
  qed
qed

lemma last_start_max:
  assumes "ms \<noteq> []"
  shows "(Max (set (map fst ms)), last_start ms) \<in> set ms"
    and "\<forall>m\<in>set ms. fst m \<le> Max (set (map fst ms))"
proof -
  let ?mx = "Max (set (map fst ms))"
  have "?mx \<in> set (map fst ms)" using assms by (intro Max_in) auto
  then have ne: "filter (\<lambda>m. fst m = ?mx) ms \<noteq> []" by (force simp: filter_empty_conv)
  then have "last (filter (\<lambda>m. fst m = ?mx) ms) \<in> set (filter (\<lambda>m. fst m = ?mx) ms)"
    by (rule last_in_set)
  then have "last (filter (\<lambda>m. fst m = ?mx) ms) \<in> set ms"
    and "fst (last (filter (\<lambda>m. fst m = ?mx) ms)) = ?mx" by auto
  then show "(?mx, last_start ms) \<in> set ms"
    by (metis last_start_def prod.collapse)
  show "\<forall>m\<in>set ms. fst m \<le> ?mx" by (auto intro!: Max_ge)
qed

text \<open>
  C3, as amended.  For a sensor dataset with a non-empty \<open>time_data\<close> array, and every
  interpreter's reading of digits:
  \<^item> if no key matches \<open>start_time*\<close>, the window runs from the first to the last
    recorded timestamp and the warning is printed;
  \<^item> if some key matches and \<open>int\<close> converts the number of each matching key, the
    start time is the value of a matching key whose number is greatest among the
    matching keys, and the stop time is the value of the key \<open>stop_time*\<close> with the
    same suffix when that key is present, the last recorded timestamp when it is absent;
    no warning is printed;
  \<^item> the number of the key \<open>start_time\<close>\<open>c\<close> that the recorder writes for cycle
    \<open>c\<close> is \<open>c\<close>, that of the bare key of cycle 0 is \<open>-1\<close>, and the stop key
    sought for it is the recorder's key of the same cycle.
  In the first two cases the window is resolved without an exception.
\<close>

theorem resolve_window_policy:
  assumes "map_of sd ''time_data'' = Some (Floats ts)" and "ts \<noteq> []"
  shows "((\<forall>k\<in>set (map fst sd). start_time_num dg k = None) \<longrightarrow>
            resolve_window dg sd = Inr (Num (hd ts), Num (last ts), True)) \<and>
         ((\<exists>k\<in>set (map fst sd). start_time_num dg k \<noteq> None) \<and>
          (\<forall>k\<in>set (map fst sd). \<forall>e. start_time_num dg k \<noteq> Some (Inl e)) \<longrightarrow>
            (\<exists>k n v. k \<in> set (map fst sd) \<and> start_time_num dg k = Some (Inr n) \<and>
               (\<forall>k'\<in>set (map fst sd). \<forall>n'. start_time_num dg k' = Some (Inr n') \<longrightarrow> n' \<le> n) \<and>
               map_of sd k = Some v \<and>
               resolve_window dg sd =
                 Inr (v,
                      (case map_of sd (''stop'' @ drop 5 k) of
                         Some w \<Rightarrow> w
                       | None \<Rightarrow> Num (last ts)),
                      False))) \<and>
         (reads_ascii limit dg \<longrightarrow>
            (\<forall>c. length (str_nat c) \<le> limit \<longrightarrow>
               start_time_num dg (cycle_name ''start_time'' c) =
                 Some (Inr (if c = 0 then - 1 else int c)) \<and>
               ''stop'' @ drop 5 (cycle_name ''start_time'' c) = cycle_name ''stop_time'' c))"
proof (intro conjI impI allI)
  assume none: "\<forall>k\<in>set (map fst sd). start_time_num dg k = None"
  then have "\<forall>k\<in>set (map fst sd). \<forall>e. start_time_num dg k \<noteq> Some (Inl e)" by simp
  from start_matches_no_error [OF this] obtain ms where
    ms: "start_matches dg sd = Inr ms"
    and mem: "\<forall>n k. (n, k) \<in> set ms \<longleftrightarrow>
                k \<in> set (map fst sd) \<and> start_time_num dg k = Some (Inr n)"
    by blast
  have "ms = []"
  proof (rule ccontr)
    assume "ms \<noteq> []"
    then obtain n k where "(n, k) \<in> set ms" by (metis last_in_set prod.collapse)
    with mem none show False by force
  qed
  with ms show "resolve_window dg sd = Inr (Num (hd ts), Num (last ts), True)"
    using assms by (simp add: resolve_window_def first_time_def last_time_def)
next
  assume h: "(\<exists>k\<in>set (map fst sd). start_time_num dg k \<noteq> None) \<and>
             (\<forall>k\<in>set (map fst sd). \<forall>e. start_time_num dg k \<noteq> Some (Inl e))"
  from start_matches_no_error [of sd dg] h obtain ms where
    ms: "start_matches dg sd = Inr ms"
    and mem: "\<forall>n k. (n, k) \<in> set ms \<longleftrightarrow>
                k \<in> set (map fst sd) \<and> start_time_num dg k = Some (Inr n)"
    by blast
  from h obtain k0 r where k0: "k0 \<in> set (map fst sd)" "start_time_num dg k0 = Some r" by auto
  with h obtain n0 where "start_time_num dg k0 = Some (Inr n0)" by (cases r) auto
  with k0 mem have "(n0, k0) \<in> set ms" by simp
  then have ne: "ms \<noteq> []" by auto
  let ?k = "last_start ms" and ?n = "Max (set (map fst ms))"
  from last_start_max [OF ne] have in_ms: "(?n, ?k) \<in> set ms"
    and mx: "\<forall>m\<in>set ms. fst m \<le> ?n" by simp_all
  from in_ms mem have k: "?k \<in> set (map fst sd)" "start_time_num dg ?k = Some (Inr ?n)"
    by simp_all
  have top: "\<forall>k'\<in>set (map fst sd). \<forall>n'. start_time_num dg k' = Some (Inr n') \<longrightarrow> n' \<le> ?n"
  proof (intro ballI allI impI)
    fix k' n' assume "k' \<in> set (map fst sd)" "start_time_num dg k' = Some (Inr n')"
    with mem have "(n', k') \<in> set ms" by simp
    with mx show "n' \<le> ?n" by fastforce
  qed
  from k(1) obtain v where v: "map_of sd ?k = Some v"
    by (metis map_of_eq_None_iff not_Some_eq set_map)
  have "resolve_window dg sd =
          Inr (v, (case map_of sd (''stop'' @ drop 5 ?k) of Some w \<Rightarrow> w | None \<Rightarrow> Num (last ts)),
               False)"
    using ne ms v assms
    by (simp add: resolve_window_def last_time_def split: option.splits)
  with k top v show "\<exists>k n v. k \<in> set (map fst sd) \<and> start_time_num dg k = Some (Inr n) \<and>
               (\<forall>k'\<in>set (map fst sd). \<forall>n'. start_time_num dg k' = Some (Inr n') \<longrightarrow> n' \<le> n) \<and>
               map_of sd k = Some v \<and>
               resolve_window dg sd =
                 Inr (v,
                      (case map_of sd (''stop'' @ drop 5 k) of
                         Some w \<Rightarrow> w
                       | None \<Rightarrow> Num (last ts)),
                      False)"
    by blast
next
  fix c assume "reads_ascii limit dg" "length (str_nat c) \<le> limit"
  then show "start_time_num dg (cycle_name ''start_time'' c) =
               Some (Inr (if c = 0 then - 1 else int c))"
    by (rule start_time_num_cycle)
next
  fix c show "''stop'' @ drop 5 (cycle_name ''start_time'' c) = cycle_name ''stop_time'' c"
    by (rule stop_key_cycle)
qed

text \<open>
  A sensor started three times, in cycles 0, 2 and 10, and stopped in cycles 0 and 2
  only: the window starts at the start time of cycle 10, whose key stands first in the
  dataset, and ends at the last recorded timestamp.
\<close>

lemma window_example_nums:
  "start_time_num ascii_int ''start_time10'' = Some (Inr 10)"
  "start_time_num ascii_int ''cap_data'' = None"
  "start_time_num ascii_int ''start_time2'' = Some (Inr 2)"
  "start_time_num ascii_int ''start_time'' = Some (Inr (- 1))"
  "start_time_num ascii_int ''stop_time'' = None"
  "start_time_num ascii_int ''stop_time2'' = None"
  "start_time_num ascii_int ''time_data'' = None"
  by code_simp+

theorem resolve_window_policy_witness:
  "map_of [(''start_time10'', Num 4), (''cap_data'', Ints [5, 6, 7]), (''start_time2'', Num 1),
           (''start_time'', Num 0), (''stop_time'', Num 2), (''stop_time2'', Num 3),
           (''time_data'', Floats [0, 3, 6])] ''time_data''
     = Some (Floats [0, 3, 6]) \<and>
   [0, 3, 6 :: real] \<noteq> [] \<and>
   resolve_window ascii_int
     [(''start_time10'', Num 4), (''cap_data'', Ints [5, 6, 7]), (''start_time2'', Num 1),
      (''start_time'', Num 0), (''stop_time'', Num 2), (''stop_time2'', Num 3),
      (''time_data'', Floats [0, 3, 6])] = Inr (Num 4, Num 6, False) \<and>
   reads_ascii 4300 ascii_int \<and>
   length (str_nat 10) \<le> 4300 \<and>
   start_time_num ascii_int (cycle_name ''start_time'' 10) = Some (Inr 10) \<and>
   resolve_window ascii_int [(''cap_data'', Ints [5, 6, 7]), (''time_data'', Floats [0, 3, 6])]
     = Inr (Num 0, Num 6, True)"
proof -
  let ?sd = "[(''start_time10'', Num 4), (''cap_data'', Ints [5, 6, 7]), (''start_time2'', Num 1),
              (''start_time'', Num 0), (''stop_time'', Num 2), (''stop_time2'', Num 3),
              (''time_data'', Floats [0, 3, 6])]"
  let ?plain = "[(''cap_data'', Ints [5, 6, 7]), (''time_data'', Floats [0, 3, 6])]"
  note nums = window_example_nums
  have h1: "map_of ?sd ''time_data'' = Some (Floats [0, 3, 6])" by simp
  have h2: "[0, 3, 6 :: real] \<noteq> []" by simp
  have h3: "(\<exists>k\<in>set (map fst ?sd). start_time_num ascii_int k \<noteq> None) \<and>
            (\<forall>k\<in>set (map fst ?sd). \<forall>e. start_time_num ascii_int k \<noteq> Some (Inl e))"
    by (simp add: nums)
  have len: "length (str_nat 10) \<le> 4300" by code_simp
  from resolve_window_policy [OF h1 h2, of ascii_int 4300] h3 obtain k n v where
    k: "k \<in> set (map fst ?sd)" and n: "start_time_num ascii_int k = Some (Inr n)"
    and top: "\<forall>k'\<in>set (map fst ?sd). \<forall>n'. start_time_num ascii_int k' = Some (Inr n') \<longrightarrow> n' \<le> n"
    and v: "map_of ?sd k = Some v"
    and w: "resolve_window ascii_int ?sd =
              Inr (v, (case map_of ?sd (''stop'' @ drop 5 k) of Some w \<Rightarrow> w
                       | None \<Rightarrow> Num (last [0, 3, 6])), False)"
    by blast
  from top nums(1) have "10 \<le> n" by simp
  with k n have "k = ''start_time10''" by (auto simp: nums)
  with v w have r: "resolve_window ascii_int ?sd = Inr (Num 4, Num 6, False)" by simp
  from resolve_window_policy [OF h1 h2, of ascii_int 4300] ascii_int_reads len
  have c: "start_time_num ascii_int (cycle_name ''start_time'' 10) = Some (Inr 10)" by simp
  have "map_of ?plain ''time_data'' = Some (Floats [0, 3, 6])" by simp
  from resolve_window_policy [OF this h2, of ascii_int 4300]
  have r0: "resolve_window ascii_int ?plain = Inr (Num 0, Num 6, True)"
    by (simp add: nums)
  from h1 h2 r ascii_int_reads len c r0 show ?thesis by blast
qed

text \<open>
  C3 as stated fails.  A session stopped before the first flush leaves sensor groups
  without \<open>time_data\<close>: for an empty group the warning is printed and the whole-trace
  fallback raises KeyError; for a group that holds only the start time of a sensor that
  was started, the substitution of the final timestamp raises KeyError.  A matching key
  with more digits than \<open>int\<close> accepts raises ValueError.
\<close>

theorem window_without_samples_raises:
  "resolve_window ascii_int [] = Inl (KeyError ''time_data'') \<and>
   resolve_window ascii_int [(''start_time'', Num 1)] = Inl (KeyError ''time_data'') \<and>
   field (projr (write_sensor_metadata 1 (Some 1) None None None None 0
                  (h5 (session_start [''FT232H0''])))) ''FT232H0'' 1 ''start_time''
     = Some (Num 1) \<and>
   field (projr (write_sensor_metadata 1 (Some 1) None None None None 0
                  (h5 (session_start [''FT232H0''])))) ''FT232H0'' 1 ''time_data''
     = None \<and>
   resolve_window ascii_int
     [(''start_time'' @ replicate 4301 (CHR ''1''), Num 1), (''time_data'', Floats [0, 3, 6])]
     = Inl ValueError"
proof -
  have "start_time_num ascii_int (''start_time'' @ replicate 4301 (CHR ''1'')) =
          Some (Inl ValueError)"
    by (simp add: start_time_num_def ascii_int_def is_digit_def list_all_iff)
  then have long: "resolve_window ascii_int
                     [(''start_time'' @ replicate 4301 (CHR ''1''), Num 1),
                      (''time_data'', Floats [0, 3, 6])] = Inl ValueError"
    by (simp add: resolve_window_def start_matches_def)
  have "resolve_window ascii_int [] = Inl (KeyError ''time_data'') \<and>
        resolve_window ascii_int [(''start_time'', Num 1)] = Inl (KeyError ''time_data'') \<and>
        field (projr (write_sensor_metadata 1 (Some 1) None None None None 0
                       (h5 (session_start [''FT232H0''])))) ''FT232H0'' 1 ''start_time''
          = Some (Num 1) \<and>
        field (projr (write_sensor_metadata 1 (Some 1) None None None None 0
                       (h5 (session_start [''FT232H0''])))) ''FT232H0'' 1 ''time_data''
          = None"
    by code_simp
  with long show ?thesis by blast
qed

section \<open>Trace reorganizer: consumed volume\<close>

lemma map_of_dict_set: "map_of (dict_set d key v) key = Some v"
proof (cases "key \<in> set (map fst d)")
  case False
  then have "map_of d key = None" by (simp add: map_of_eq_None_iff)
  with False show ?thesis by (simp add: dict_set_def map_add_def)
next
  case True
  have "map_of (map (\<lambda>e. if fst e = key then (key, v) else e) d) key = Some v"
    using True by (induction d) auto
  with True show ?thesis by (simp add: dict_set_def)
qed

text \<open>With both volumes stored as scalars the difference is computed; without a stop
  volume nothing is added, and saving logs the missing field.\<close>

lemma volume_step_both:
  assumes "map_of sd ''start_vol'' = Some (Num a)" and "map_of sd ''stop_vol'' = Some (Num b)"
  shows "\<exists>sd'. volume_step sd = Inr sd' \<and> map_of sd' ''consumed_vol'' = Some (Num (a - b))"
proof -
  from assms(2) have "''stop_vol'' \<in> set (map fst sd)"
    by (metis map_of_eq_None_iff option.distinct(1) set_map)
  then show ?thesis using assms by (simp add: volume_step_def map_of_dict_set)
qed

lemma volume_step_no_stop_vol:
  assumes "''stop_vol'' \<notin> set (map fst sd)"
  shows "volume_step sd = Inr sd"
  using assms by (simp add: volume_step_def)

lemma save_without_consumed_vol:
  assumes "map_of data ''consumed_vol'' = None"
  shows "fst (save_consumed_vol data) = [] \<and> snd (save_consumed_vol data) \<noteq> []"
  using assms by (simp add: save_consumed_vol_def)

text \<open>
  C4.  A sensor that has a stop volume but no start volume makes the volume step raise
  KeyError, which nothing in \<open>filter_data\<close> catches.  The recorder produces such a
  sensor group when the start volume is left at 0 and the stop volume is positive.
\<close>

theorem stop_vol_without_start_vol_raises:
  "volume_step [(''cap_data'', Ints [5, 6, 7]), (''stop_vol'', Num 2),
                (''time_data'', Floats [0, 3, 6])] = Inl (KeyError ''start_vol'') \<and>
   field (projr (write_sensor_metadata 1 None None (Some 0) (Some 2) None 0
                  (h5 (session_start [''FT232H0''])))) ''FT232H0'' 1 ''stop_vol''
     = Some (Num 2) \<and>
   field (projr (write_sensor_metadata 1 None None (Some 0) (Some 2) None 0
                  (h5 (session_start [''FT232H0''])))) ''FT232H0'' 1 ''start_vol''
     = None"
  by code_simp
section \<open>Threshold-scan detection: runs below a threshold\<close>

lemma np_diff_single: "np_diff [x] = []"
  by (simp add: np_diff_def)

lemma np_diff_Cons2: "np_diff (x # y # r) = (y - x) # np_diff (y # r)"
  by (simp add: np_diff_def)

lemma length_np_diff: "length (np_diff xs) = length xs - 1"
  by (simp add: np_diff_def)

lemma peak_starts_single: "peak_starts_of [x] = (if x then [0] else [])"
  by (simp add: peak_starts_of_def as_int8_def np_diff_single np_where_Nil)

lemma peak_ends_single: "peak_ends_of [x] = (if x then [0] else [])"
  by (simp add: peak_ends_of_def as_int8_def np_diff_single np_where_Nil)

lemma peak_starts_Cons2:
  "peak_starts_of (x # y # r) =
     (if x then 0 # map Suc (if y then tl (peak_starts_of (y # r)) else peak_starts_of (y # r))
      else map Suc (peak_starts_of (y # r)))"
  by (simp add: peak_starts_of_def as_int8_def np_diff_Cons2 np_where_Cons Let_def)

lemma peak_ends_Cons2:
  "peak_ends_of (x # y # r) =
     (if x \<and> \<not> y then 0 # map Suc (peak_ends_of (y # r)) else map Suc (peak_ends_of (y # r)))"
  by (simp add: peak_ends_of_def as_int8_def np_diff_Cons2 np_where_Cons Let_def)

lemma peak_starts_hd: "y \<Longrightarrow> \<exists>t. peak_starts_of (y # r) = 0 # t"
  by (simp add: peak_starts_of_def)

lemma paired_map_Suc: "paired ss es \<Longrightarrow> paired (map Suc ss) (map Suc es)"
  by (induction ss es rule: paired.induct) (auto simp: list_all_iff)

lemma peak_runs_paired: "bs \<noteq> [] \<Longrightarrow> paired (peak_starts_of bs) (peak_ends_of bs)"
proof (induction bs rule: list_nonempty_induct)
  case (single x)
  show ?case by (simp add: peak_starts_single peak_ends_single)
next
  case (cons x bs)
  from cons.hyps obtain y r where bs: "bs = y # r" by (cases bs) auto
  let ?S = "peak_starts_of (y # r)" and ?E = "peak_ends_of (y # r)"
  have ih: "paired ?S ?E" using cons.IH bs by simp
  show ?case
  proof (cases x)
    case False
    then show ?thesis using ih by (simp add: bs peak_starts_Cons2 peak_ends_Cons2 paired_map_Suc)
  next
    case True
    show ?thesis
    proof (cases y)
      case False
      have "paired (0 # map Suc ?S) (0 # map Suc ?E)"
        using paired_map_Suc [OF ih] by (simp add: list_all_iff)
      then show ?thesis using True False by (simp add: bs peak_starts_Cons2 peak_ends_Cons2)
    next
      case y: True
      then obtain t where S: "?S = 0 # t" using peak_starts_hd by blast
      with ih obtain e es where E: "?E = e # es" by (cases ?E) auto
      from ih S E have "list_all (\<lambda>s'. e < s') t" "paired t es" by simp_all
      then have "paired (0 # map Suc t) (Suc e # map Suc es)"
        by (simp add: paired_map_Suc list_all_iff)
      then show ?thesis using True y S E by (simp add: bs peak_starts_Cons2 peak_ends_Cons2)
    qed
  qed
qed

lemma peak_ends_bound: "bs \<noteq> [] \<Longrightarrow> e \<in> set (peak_ends_of bs) \<Longrightarrow> e < length bs"
  by (cases bs) (auto simp: peak_ends_of_def Let_def length_np_diff as_int8_def
        dest!: np_where_bound split: if_splits)

lemma paired_length: "paired ss es \<Longrightarrow> length ss = length es"
  by (induction ss es rule: paired.induct) auto

lemma paired_le: "paired ss es \<Longrightarrow> i < length ss \<Longrightarrow> ss ! i \<le> es ! i"
proof (induction ss es arbitrary: i rule: paired.induct)
  case (2 s ss e es)
  then show ?case by (cases i) auto
qed auto

lemma paired_before: "paired ss es \<Longrightarrow> i < j \<Longrightarrow> j < length ss \<Longrightarrow> es ! i < ss ! j"
proof (induction ss es arbitrary: i j rule: paired.induct)
  case (2 s ss e es)
  show ?case
  proof (cases i)
    case 0
    with "2.prems" obtain j' where "j = Suc j'" "j' < length ss" by (cases j) auto
    with "2.prems" 0 show ?thesis by (auto simp: list_all_iff)
  next
    case (Suc i')
    with "2.prems" obtain j' where "j = Suc j'" "i' < j'" "j' < length ss" by (cases j) auto
    with "2.prems" "2.IH" Suc show ?thesis by auto
  qed
qed auto
section \<open>Threshold-scan detection: one threshold yields increasing indices\<close>

lemma depth_loop_filter:
  "depth_loop trace d ss es good i =
     take i good @ filter (deep_enough trace d ss es) (drop i good)"
proof (induction trace d ss es good i rule: depth_loop.induct)
  case (1 trace d ss es good i)
  show ?case
  proof (cases "i < length good")
    case False
    then show ?thesis by (simp add: depth_loop.simps)
  next
    case True
    then have dr: "drop i good = good ! i # drop (Suc i) good"
      by (simp add: Cons_nth_drop_Suc)
    show ?thesis
    proof (cases "deep_enough trace d ss es (good ! i)")
      case False
      let ?g = "take i good @ drop (Suc i) good"
      have "depth_loop trace d ss es good i = depth_loop trace d ss es ?g i"
        using True False by (subst depth_loop.simps) simp
      also have "\<dots> = take i ?g @ filter (deep_enough trace d ss es) (drop i ?g)"
        using "1.IH"(1) True False by simp
      also have "\<dots> = take i good @ filter (deep_enough trace d ss es) (drop (Suc i) good)"
        using True by simp
      finally show ?thesis using False by (simp add: dr)
    next
      case deep: True
      have "depth_loop trace d ss es good i = depth_loop trace d ss es good (i + 1)"
        using True deep by (subst depth_loop.simps) simp
      also have "\<dots> = take (i + 1) good @ filter (deep_enough trace d ss es) (drop (i + 1) good)"
        using "1.IH"(2) True deep by simp
      finally show ?thesis using True deep by (simp add: dr take_Suc_conv_app_nth)
    qed
  qed
qed

lemma np_argmin_bound: "xs \<noteq> [] \<Longrightarrow> np_argmin xs < length xs"
proof -
  assume ne: "xs \<noteq> []"
  let ?P = "\<lambda>x. x \<noteq> Min (set xs)"
  have "Min (set xs) \<in> set xs" using ne by (intro Min_in) auto
  then have "takeWhile ?P xs \<noteq> xs" by (auto simp: takeWhile_eq_all_conv)
  moreover have "length (takeWhile ?P xs) \<le> length xs" by (rule length_takeWhile_le)
  ultimately have "length (takeWhile ?P xs) < length xs"
    by (metis le_neq_implies_less takeWhile_eq_take take_all_iff order_refl)
  then show ?thesis by (simp add: np_argmin_def)
qed

lemma peak_bin_range:
  assumes "ps \<le> pe" and "pe < length trace"
  shows "int ps \<le> peak_bin trace ps pe \<and> peak_bin trace ps pe \<le> int pe"
proof -
  let ?sl = "py_slice trace ps (pe + 1)"
  have len: "length ?sl = pe + 1 - ps" using assms by (simp add: py_slice_def)
  then have ne: "?sl \<noteq> []" using assms by auto
  have "np_argmin ?sl < pe + 1 - ps" using np_argmin_bound [OF ne] len by simp
  then show ?thesis using ne assms by (simp add: peak_bin_def Let_def)
qed

lemma bins_increasing:
  assumes pr: "paired S E"
    and bound: "\<forall>e\<in>set E. e < length trace"
    and sorted: "sorted_wrt (<) good"
    and rng: "\<forall>p\<in>set good. p < length S"
  shows "increasing_in (length trace) (map (\<lambda>p. peak_bin trace (S ! p) (E ! p)) good)"
proof -
  have len: "length S = length E" using pr by (rule paired_length)
  have range: "int (S ! p) \<le> peak_bin trace (S ! p) (E ! p) \<and>
               peak_bin trace (S ! p) (E ! p) \<le> int (E ! p)" if "p \<in> set good" for p
  proof (rule peak_bin_range)
    from that rng have p: "p < length S" by simp
    then show "S ! p \<le> E ! p" using pr by (simp add: paired_le)
    show "E ! p < length trace" using p len bound by simp
  qed
  have "sorted_wrt (\<lambda>p q. peak_bin trace (S ! p) (E ! p) < peak_bin trace (S ! q) (E ! q)) good"
    using sorted
  proof (rule sorted_wrt_mono_rel [rotated])
    fix p q assume pq: "p \<in> set good" "q \<in> set good" "p < q"
    then have "E ! p < S ! q" using pr rng by (simp add: paired_before)
    then show "peak_bin trace (S ! p) (E ! p) < peak_bin trace (S ! q) (E ! q)"
      using range [OF pq(1)] range [OF pq(2)] by linarith
  qed
  moreover have "0 \<le> peak_bin trace (S ! p) (E ! p) \<and>
                 peak_bin trace (S ! p) (E ! p) < int (length trace)" if "p \<in> set good" for p
  proof -
    from that rng have "E ! p < length trace" using len bound by simp
    then show ?thesis using range [OF that] by linarith
  qed
  ultimately show ?thesis by (simp add: increasing_in_def sorted_wrt_map list_all_iff)
qed

lemma take_idx_length: "take_idx xs idxs = Inr ys \<Longrightarrow> length ys = length idxs"
  by (auto simp: take_idx_def split: if_splits)

lemma scan_threshold_increasing:
  assumes "scan_threshold trace tms thresholds i_thr = Inr bins"
  shows "increasing_in (length trace) bins"
proof (cases "bins = []")
  case True
  then show ?thesis by (simp add: increasing_in_def)
next
  case False
  from assms have ne: "trace \<noteq> []" by (auto simp: scan_threshold_def split: if_splits)
  let ?bs = "below (thresholds ! i_thr) trace"
  let ?S = "peak_starts_of ?bs" and ?E = "peak_ends_of ?bs"
  have bne: "?bs \<noteq> []" using ne by (simp add: below_def)
  have pr: "paired ?S ?E" using bne by (rule peak_runs_paired)
  have len: "length ?S = length ?E" using pr by (rule paired_length)
  have bound: "\<forall>e\<in>set ?E. e < length trace"
    using peak_ends_bound [OF bne] by (simp add: below_def)
  from assms False ne len obtain t_ends t_starts where
    te: "take_idx tms ?E = Inr t_ends" and ts: "take_idx tms ?S = Inr t_starts"
    by (auto simp: scan_threshold_def Let_def split: if_splits sum.splits)
  let ?g0 = "np_where (map (\<lambda>d. d < max_lick_time) (map2 (\<lambda>e s. e - s) t_ends t_starts))"
  let ?good = "depth_loop trace (thresholds ! (i_thr - 2)) ?S ?E ?g0 0"
  from assms False ne len te ts
  have bins: "bins = map (\<lambda>p. peak_bin trace (?S ! p) (?E ! p)) ?good"
    by (auto simp: scan_threshold_def Let_def split: if_splits)
  have good: "?good = filter (deep_enough trace (thresholds ! (i_thr - 2)) ?S ?E) ?g0"
    by (simp add: depth_loop_filter)
  have "sorted_wrt (<) ?g0" by (rule np_where_sorted)
  then have sorted: "sorted_wrt (<) ?good" unfolding good by (rule sorted_wrt_filter)
  have "\<forall>p\<in>set ?g0. p < length ?S"
    using take_idx_length [OF te] take_idx_length [OF ts] len
    by (auto dest!: np_where_bound)
  then have rng: "\<forall>p\<in>set ?good. p < length ?S" unfolding good by simp
  show ?thesis unfolding bins using pr bound sorted rng by (rule bins_increasing)
qed
section \<open>Threshold-scan detection: the per-subject result\<close>

lemma scan_step_inv:
  assumes "scan_inv n arrays" and "scan_step trace tms thresholds i_thr arrays = Inr arrays'"
    and "n = length trace"
  shows "scan_inv n arrays'"
proof -
  obtain np pb where arrays: "arrays = (np, pb)" by (cases arrays)
  from assms(2) obtain bins where bins: "scan_threshold trace tms thresholds i_thr = Inr bins"
    and arrays': "arrays' = (np[i_thr := Some (length bins)], pb[i_thr := Some bins])"
    by (auto simp: scan_step_def arrays split: sum.splits)
  have inc: "increasing_in n bins" using bins assms(3) by (simp add: scan_threshold_increasing)
  from assms(1) have len: "length np = length pb"
    and old: "\<And>i. i < length np \<Longrightarrow> np ! i \<noteq> None \<Longrightarrow>
                (case pb ! i of None \<Rightarrow> False | Some b \<Rightarrow> increasing_in n b)"
    by (auto simp: scan_inv_def arrays list_all_iff)
  have "case pb[i_thr := Some bins] ! i of None \<Rightarrow> False | Some b \<Rightarrow> increasing_in n b"
    if "i < length np" "np[i_thr := Some (length bins)] ! i \<noteq> None" for i
  proof (cases "i = i_thr")
    case True
    then show ?thesis using that len inc by simp
  next
    case False
    then show ?thesis using that old [of i] by simp
  qed
  then show ?thesis using len by (simp add: scan_inv_def arrays' list_all_iff)
qed

lemma scan_inv_init: "scan_inv n (replicate k None, replicate k None)"
  by (simp add: scan_inv_def list_all_iff)

lemma first_index_nth:
  assumes "first_index xs v = Inr i"
  shows "i < length xs \<and> xs ! i = v"
proof -
  from assms have v: "v \<in> set xs" and i: "i = length (takeWhile (\<lambda>x. x \<noteq> v) xs)"
    by (auto simp: first_index_def split: if_splits)
  have "takeWhile (\<lambda>x. x \<noteq> v) xs \<noteq> xs" using v by (auto simp: takeWhile_eq_all_conv)
  then have lt: "i < length xs" unfolding i
    by (metis length_takeWhile_le le_neq_implies_less takeWhile_eq_take take_all_iff order_refl)
  then have "\<not> (xs ! i \<noteq> v)" unfolding i by (rule nth_length_takeWhile)
  with lt show ?thesis by simp
qed

lemma basic_one_increasing:
  assumes "basic_one trace tms = Inr r"
  shows "increasing_in (length trace) (lick_indices r)"
proof (cases r)
  case Skipped
  then show ?thesis by (simp add: increasing_in_def)
next
  case (Unsaved pb lts)
  with assms show ?thesis
    by (auto simp: basic_one_def Let_def split: if_splits sum.splits option.splits prod.splits)
next
  case (Saved pb lts)
  let ?th = "thresholds_of (np_unique trace)"
  let ?k = "length ?th"
  from assms Saved obtain peaks_row peak_bins i_thr where
    loop: "for_each (scan_step trace tms ?th) [2..<?k] (replicate ?k None, replicate ?k None)
             = Inr (peaks_row, peak_bins)"
    and idx: "first_index peaks_row (Some (nanmax peaks_row)) = Inr i_thr"
    and pb: "peak_bins ! i_thr = Some pb"
    by (auto simp: basic_one_def Let_def split: if_splits sum.splits option.splits prod.splits)
  have "scan_inv (length trace) (peaks_row, peak_bins)"
  proof (rule for_each_invariant [where I = "scan_inv (length trace)", OF _ _ loop])
    show "scan_inv (length trace) (replicate ?k None, replicate ?k None)"
      by (rule scan_inv_init)
  next
    fix x s s'
    assume "scan_inv (length trace) s" "scan_step trace tms ?th x s = Inr s'"
    then show "scan_inv (length trace) s'" by (rule scan_step_inv) simp
  qed
  then have "\<forall>i<length peaks_row. peaks_row ! i \<noteq> None \<longrightarrow>
      (case peak_bins ! i of None \<Rightarrow> False | Some b \<Rightarrow> increasing_in (length trace) b)"
    by (simp add: scan_inv_def list_all_iff)
  moreover from first_index_nth [OF idx]
  have "i_thr < length peaks_row" "peaks_row ! i_thr \<noteq> None" by simp_all
  ultimately have "case peak_bins ! i_thr of None \<Rightarrow> False
                   | Some b \<Rightarrow> increasing_in (length trace) b" by blast
  then have "increasing_in (length trace) pb" using pb by simp
  then show ?thesis using Saved by simp
qed

lemma length_np_unique: "length (np_unique trace) = card (set trace)"
  by (simp add: np_unique_def length_remdups_card_conv)

text \<open>
  C6, as amended.  A trace with fewer than four distinct capacitance values makes the
  round skip the subject: it ends at the \<open>else: continue\<close> branch, whatever the trace
  and the timestamps are, raises nothing, sets no lick field and writes no output group.
\<close>

theorem basic_one_few_values:
  assumes "card (set trace) < 4"
  shows "basic_one trace tms = Inr Skipped"
  using assms by (simp add: basic_one_def length_np_unique)

theorem basic_one_few_values_witness:
  "card (set [10, 12, 10, 11, 10 :: int]) < 4 \<and>
   basic_one [10, 12, 10, 11, 10] [0, 1, 2, 3, 4] = Inr Skipped"
proof -
  have few: "card (set [10, 12, 10, 11, 10 :: int]) < 4" by (simp add: card_insert_if)
  show ?thesis using few basic_one_few_values [OF few, of "[0, 1, 2, 3, 4]"] by simp
qed

text \<open>
  C6 as stated fails.  The trace \<open>10, 12, 10, 11, 10\<close> has three distinct values, and
  the round does not report zero events for it: the outcome is not the zero-event report
  \<open>Saved [] []\<close>, which the same round does produce for the trace \<open>1, 2, 3, 4, 5\<close>
  (five distinct values, no run that qualifies).
\<close>

theorem few_values_no_zero_report:
  "card (set [10, 12, 10, 11, 10 :: int]) < 4 \<and>
   basic_one [10, 12, 10, 11, 10] [0, 1, 2, 3, 4] \<noteq> Inr (Saved [] []) \<and>
   basic_one [1, 2, 3, 4, 5] [0, 1, 2, 3, 4] = Inr (Saved [] [])"
proof -
  have "card (set [10, 12, 10, 11, 10 :: int]) < 4" by (simp add: card_insert_if)
  moreover have "basic_one [10, 12, 10, 11, 10] [0, 1, 2, 3, 4] = Inr Skipped" by code_simp
  moreover have "basic_one [1, 2, 3, 4, 5] [0, 1, 2, 3, 4] = Inr (Saved [] [])" by code_simp
  ultimately show ?thesis by simp
qed
section \<open>Envelope-based detection: the filtering stage\<close>

text \<open>Each comprehension evaluates its filter on the same input six times and keeps the
  last copy, so it is one application of the filter.\<close>

lemma filter_stage_twice: "filter_stage hp lp trace = lp (hp (lp (hp trace)))"
  by (simp add: filter_stage_def Let_def upt_rec)

text \<open>
  C5 (the filtered signal is each filter applied six times in sequence).  The source
  applies each filter twice: \<open>filter_stage_twice\<close> holds for all filters and traces.
  With two gain filters that halve every sample, the one-sample trace \<open>[4096]\<close> comes
  out as \<open>[256]\<close> (four halvings), where six applications of each give \<open>[1]\<close>.
\<close>

theorem filter_stage_not_six_fold:
  "filter_stage (map (\<lambda>v. v / 2)) (map (\<lambda>v. v / 2)) [4096::real] = [256] \<and>
   spec_filter_stage (map (\<lambda>v. v / 2)) (map (\<lambda>v. v / 2)) [4096::real] = [1] \<and>
   filter_stage (map (\<lambda>v. v / 2)) (map (\<lambda>v. v / 2)) [4096::real] \<noteq>
   spec_filter_stage (map (\<lambda>v. v / 2)) (map (\<lambda>v. v / 2)) [4096::real]"
  by (simp add: filter_stage_twice spec_filter_stage_def numeral_eq_Suc)

section \<open>Envelope-based detection: minimum spacing\<close>

lemma dedup_snoc: "dedup md (cs @ [c]) = dedup_step md (dedup md cs) c"
  by (simp add: dedup_def)

lemma dedup_step_cases: "dedup_step md acc c = acc \<or> dedup_step md acc c = acc @ [c]"
  by (simp add: dedup_step_def)

lemma foldl_dedup_prefix: "prefix acc (foldl (dedup_step md) acc cs)"
proof (induction cs arbitrary: acc)
  case Nil show ?case by simp
next
  case (Cons c cs)
  have "prefix acc (dedup_step md acc c)" by (simp add: dedup_step_def)
  also have "prefix (dedup_step md acc c) (foldl (dedup_step md) (dedup_step md acc c) cs)"
    by (rule Cons.IH)
  finally show ?case by simp
qed

lemma dedup_first: "dedup md (c # cs) \<noteq> [] \<and> hd (dedup md (c # cs)) = c"
proof -
  have "prefix [c] (dedup md (c # cs))"
    using foldl_dedup_prefix [of "[c]" md cs] by (simp add: dedup_def dedup_step_def)
  then show ?thesis by (auto simp: prefix_def)
qed

lemma dedup_subset: "set (dedup md cs) \<subseteq> set cs"
proof (induction cs rule: rev_induct)
  case Nil show ?case by (simp add: dedup_def)
next
  case (snoc c cs)
  show ?case using snoc dedup_step_cases [of md "dedup md cs" c]
    by (auto simp: dedup_snoc)
qed

lemma dedup_apart:
  assumes "sorted_wrt (<) cs"
  shows "sorted_wrt (apart md) (dedup md cs)"
  using assms
proof (induction cs rule: rev_induct)
  case Nil show ?case by (simp add: dedup_def)
next
  case (snoc c cs)
  let ?k = "dedup md cs"
  from snoc.prems have sc: "sorted_wrt (<) cs" and lt: "\<forall>a\<in>set cs. a < c"
    by (auto simp: sorted_wrt_append)
  have ih: "sorted_wrt (apart md) ?k" using snoc.IH sc by simp
  have sub: "set ?k \<subseteq> set cs" by (rule dedup_subset)
  show ?case
  proof (cases "?k = [] \<or> int c - int (last ?k) > md")
    case False
    then show ?thesis using ih by (simp add: dedup_snoc dedup_step_def)
  next
    case True
    have "apart md a c" if a: "a \<in> set ?k" for a
    proof -
      from a have ne: "?k \<noteq> []" by auto
      with True have far: "int c - int (last ?k) > md" by simp
      have "a \<le> last ?k"
      proof (cases "a = last ?k")
        case False
        with a ne have "a \<in> set (butlast ?k)"
          by (metis append_butlast_last_id in_set_conv_decomp_last rotate1.simps(2) set_ConsD set_rotate1)
        moreover have "sorted_wrt (apart md) (butlast ?k @ [last ?k])" using ih ne by simp
        ultimately have "apart md a (last ?k)" by (simp add: sorted_wrt_append)
        then show ?thesis by (simp add: apart_def)
      qed simp
      moreover have "a < c" using a sub lt by auto
      ultimately show ?thesis using far by (simp add: apart_def)
    qed
    then show ?thesis using ih True by (simp add: dedup_snoc dedup_step_def sorted_wrt_append)
  qed
qed

lemma sorted_wrt_pairD:
  assumes "sorted_wrt P xs" "a \<in> set xs" "b \<in> set xs" "a < b" "\<And>x y. P x y \<Longrightarrow> x < y"
  shows "P a (b::nat)"
proof -
  from assms(2) obtain i where i: "i < length xs" "xs ! i = a" by (auto simp: in_set_conv_nth)
  from assms(3) obtain j where j: "j < length xs" "xs ! j = b" by (auto simp: in_set_conv_nth)
  show ?thesis
  proof (cases i j rule: linorder_cases)
    case less then show ?thesis using assms(1) i j by (auto simp: sorted_wrt_iff_nth_less)
  next
    case equal then show ?thesis using i j assms(4) by simp
  next
    case greater
    then have "P b a" using assms(1) i j by (auto simp: sorted_wrt_iff_nth_less)
    then have "b < a" by (rule assms(5))
    then show ?thesis using assms(4) by simp
  qed
qed

lemma closer_le_min_dist:
  assumes "0 < fs" "a < b" "real (b - a) / fs < 0.08"
  shows "int b - int a \<le> min_dist fs"
proof -
  have "real (b - a) < 0.08 * fs" using assms by (simp add: field_simps)
  then have "real_of_int (int b - int a) < 0.08 * fs" using assms(2) by (simp add: of_nat_diff)
  then have "int b - int a \<le> \<lfloor>0.08 * fs\<rfloor>" by linarith
  then show ?thesis using assms(1) by (simp add: min_dist_def py_int_def)
qed

lemma foldl_dedup_set: "set (foldl (dedup_step md) acc cs) \<subseteq> set acc \<union> set cs"
proof (induction cs arbitrary: acc)
  case Nil show ?case by simp
next
  case (Cons c cs)
  show ?case using Cons [of "dedup_step md acc c"] dedup_step_cases [of md acc c] by auto
qed

lemma dedup_kept_iff:
  assumes "sorted_wrt (<) (cs @ c # rest)"
  shows "c \<in> set (dedup md (cs @ c # rest)) \<longleftrightarrow>
         dedup md cs = [] \<or> int c - int (last (dedup md cs)) > md"
proof -
  let ?k = "dedup md cs"
  from assms have nc: "c \<notin> set cs" and nr: "c \<notin> set rest"
    by (auto simp: sorted_wrt_append)
  have fin: "dedup md (cs @ c # rest) = foldl (dedup_step md) (dedup_step md ?k c) rest"
    by (simp add: dedup_def)
  have nk: "c \<notin> set ?k" using dedup_subset [of md cs] nc by auto
  show ?thesis
  proof (cases "?k = [] \<or> int c - int (last ?k) > md")
    case True
    then have "c \<in> set (dedup_step md ?k c)" by (simp add: dedup_step_def)
    moreover have "set (dedup_step md ?k c) \<subseteq> set (dedup md (cs @ c # rest))"
      unfolding fin by (rule set_mono_prefix) (rule foldl_dedup_prefix)
    ultimately show ?thesis using True by auto
  next
    case False
    then have "dedup_step md ?k c = ?k" by (simp add: dedup_step_def)
    then have "set (dedup md (cs @ c # rest)) \<subseteq> set ?k \<union> set rest"
      unfolding fin using foldl_dedup_set [of md ?k rest] by simp
    then show ?thesis using False nk nr by auto
  qed
qed

text \<open>
  C7, as amended.  For candidates in increasing index order and a positive sampling
  rate: a candidate is kept exactly when no candidate was kept before it or its index is
  more than \<open>int(0.08 * fs)\<close> samples after the last candidate kept before it; the
  first candidate is always kept; and of two candidates closer than 0.08 s apart the
  later one is dropped whenever the earlier one is kept.
\<close>

theorem dedup_spacing:
  assumes "sorted_wrt (<) cands" and "0 < fs"
  shows "(\<forall>cs c rest. cands = cs @ c # rest \<longrightarrow>
            (c \<in> set (dedup (min_dist fs) cands) \<longleftrightarrow>
               dedup (min_dist fs) cs = [] \<or>
               int c - int (last (dedup (min_dist fs) cs)) > min_dist fs))
       \<and> (\<forall>c rest. cands = c # rest \<longrightarrow> hd (dedup (min_dist fs) cands) = c)
       \<and> (\<forall>a b. a \<in> set (dedup (min_dist fs) cands) \<and> b \<in> set cands \<and> a < b \<and>
               real (b - a) / fs < 0.08 \<longrightarrow> b \<notin> set (dedup (min_dist fs) cands))"
proof (intro conjI allI impI)
  fix cs c rest assume "cands = cs @ c # rest"
  with assms(1) show "c \<in> set (dedup (min_dist fs) cands) \<longleftrightarrow>
      dedup (min_dist fs) cs = [] \<or> int c - int (last (dedup (min_dist fs) cs)) > min_dist fs"
    by (simp add: dedup_kept_iff)
next
  fix c rest assume "cands = c # rest"
  then show "hd (dedup (min_dist fs) cands) = c" by (simp add: dedup_first)
next
  fix a b
  assume h: "a \<in> set (dedup (min_dist fs) cands) \<and> b \<in> set cands \<and> a < b \<and>
               real (b - a) / fs < 0.08"
  show "b \<notin> set (dedup (min_dist fs) cands)"
  proof
    assume b: "b \<in> set (dedup (min_dist fs) cands)"
    have "apart (min_dist fs) a b"
      using dedup_apart [OF assms(1)] _ b
    proof (rule sorted_wrt_pairD)
      show "a \<in> set (dedup (min_dist fs) cands)" using h by simp
      show "a < b" using h by simp
    qed (simp add: apart_def)
    moreover have "int b - int a \<le> min_dist fs"
    proof (rule closer_le_min_dist)
      show "0 < fs" by (rule assms(2))
      show "a < b" using h by blast
      show "real (b - a) / fs < 0.08" using h by blast
    qed
    ultimately show False by (simp add: apart_def)
  qed
qed

lemma dedup_example: "dedup (min_dist 100) [0, 5, 10] = [0, 10]"
  by (simp add: dedup_def dedup_step_def min_dist_def py_int_def)

theorem dedup_spacing_witness:
  "sorted_wrt (<) [0, 5, 10::nat] \<and> (0::real) < 100 \<and>
   0 \<in> set (dedup (min_dist 100) [0, 5, 10]) \<and> 5 \<in> set [0, 5, 10::nat] \<and>
   real (5 - 0) / 100 < 0.08 \<and> 5 \<notin> set (dedup (min_dist 100) [0, 5, 10])"
  using dedup_spacing [of "[0, 5, 10]" 100] by (simp add: dedup_example)

text \<open>
  C7 as stated fails: at 100 Hz the candidates 5 and 10 are 0.05 s apart, yet the earlier
  one is dropped (it follows the kept candidate 0 too closely) and the later one is kept.
\<close>

theorem dedup_later_kept_counterexample:
  "5 \<in> set [0, 5, 10::nat] \<and> 10 \<in> set [0, 5, 10::nat] \<and> real (10 - 5) / 100 < 0.08 \<and>
   5 \<notin> set (dedup (min_dist 100) [0, 5, 10]) \<and> 10 \<in> set (dedup (min_dist 100) [0, 5, 10])"
  by (simp add: dedup_example)
section \<open>Envelope-based detection: the indices are increasing\<close>

lemma downs_sorted: "sorted_wrt (<) (downs trace)"
  unfolding downs_def using np_where_sorted by (simp add: sorted_wrt_map)

lemma candidates_sorted:
  assumes "sorted_wrt (<) ds" and "candidates ds msk = Inr cands"
  shows "sorted_wrt (<) cands"
  using assms by (auto simp: candidates_def sorted_wrt_filter split: if_splits)

lemma dedup_sorted:
  assumes "sorted_wrt (<) cs"
  shows "sorted_wrt (<) (dedup md cs)"
  using dedup_apart [OF assms, of md]
  by (rule sorted_wrt_mono_rel [rotated]) (simp add: apart_def)

lemma nth_filter_sorted:
  assumes "sorted_wrt (<) (L :: nat list)"
  shows "sorted_wrt (<) (map (\<lambda>i. L ! i) (filter Q [0..<length L]))"
proof -
  have "sorted_wrt (<) (filter Q [0..<length L])"
    by (rule sorted_wrt_filter) (simp add: sorted_wrt_upt)
  then have "sorted_wrt (\<lambda>i j. L ! i < L ! j) (filter Q [0..<length L])"
  proof (rule sorted_wrt_mono_rel [rotated])
    fix i j assume "i \<in> set (filter Q [0..<length L])" "j \<in> set (filter Q [0..<length L])" "i < j"
    then show "L ! i < L ! j" using assms by (simp add: sorted_wrt_iff_nth_less)
  qed
  then show ?thesis by (simp add: sorted_wrt_map)
qed

lemma continuity_sorted: "sorted_wrt (<) L \<Longrightarrow> sorted_wrt (<) (continuity mx L)"
  unfolding continuity_def by (rule nth_filter_sorted)

lemma hilbert_one_sorted:
  assumes "hilbert_one hp lp hilb fs trace = Inr r"
  shows "sorted_wrt (<) (lick_indices r)"
proof -
  let ?env = "hilb (filter_stage hp lp (map real_of_int trace))"
  from assms obtain msk where m: "env_mask ?env = Inr msk"
    by (auto simp: hilbert_one_def split: sum.splits)
  with assms obtain cands where c: "candidates (downs trace) msk = Inr cands"
    by (auto simp: hilbert_one_def split: sum.splits)
  have sc: "sorted_wrt (<) cands" using downs_sorted c by (rule candidates_sorted)
  let ?L = "dedup (min_dist fs) cands"
  have "sorted_wrt (<) (continuity (max_dist fs) ?L)"
    using sc by (intro continuity_sorted dedup_sorted)
  then show ?thesis using assms m c
    by (auto simp: hilbert_one_def Let_def split: if_splits)
qed
section \<open>Both algorithms report strictly increasing sample indices\<close>

lemma downs_bound: "i \<in> set (downs trace) \<Longrightarrow> i < length trace"
  by (auto simp: downs_def dest!: np_where_bound)

lemma candidates_subset: "candidates ds msk = Inr cands \<Longrightarrow> set cands \<subseteq> set ds"
  by (auto simp: candidates_def split: if_splits)

lemma continuity_subset: "set (continuity mx L) \<subseteq> set L"
  by (auto simp: continuity_def)

lemma hilbert_one_bound:
  assumes "hilbert_one hp lp hilb fs trace = Inr r"
  shows "list_all (\<lambda>i. i < length trace) (lick_indices r)"
proof -
  let ?env = "hilb (filter_stage hp lp (map real_of_int trace))"
  from assms obtain msk where m: "env_mask ?env = Inr msk"
    by (auto simp: hilbert_one_def split: sum.splits)
  with assms obtain cands where c: "candidates (downs trace) msk = Inr cands"
    by (auto simp: hilbert_one_def split: sum.splits)
  have "set (continuity (max_dist fs) (dedup (min_dist fs) cands)) \<subseteq> set (downs trace)"
    using continuity_subset dedup_subset candidates_subset [OF c] by blast
  then have "list_all (\<lambda>i. i < length trace)
               (continuity (max_dist fs) (dedup (min_dist fs) cands))"
    using downs_bound by (auto simp: list_all_iff)
  then show ?thesis using assms m c
    by (auto simp: hilbert_one_def Let_def split: if_splits)
qed

text \<open>
  C9.  Whenever a detection round returns for a subject, the lick indices it reports are
  strictly increasing, and each is a valid index into the trace: this holds for the
  threshold-scan round and for the envelope-based round, for all filters, sampling
  rates, traces and timestamps.
\<close>

theorem lick_indices_strictly_increasing:
  "(basic_one trace tms = Inr r \<longrightarrow>
      sorted_wrt (<) (lick_indices r) \<and>
      list_all (\<lambda>b. 0 \<le> b \<and> b < int (length trace)) (lick_indices r)) \<and>
   (hilbert_one hp lp hilb fs trace' = Inr r' \<longrightarrow>
      sorted_wrt (<) (lick_indices r') \<and>
      list_all (\<lambda>i. i < length trace') (lick_indices r'))"
  using basic_one_increasing [of trace tms r] hilbert_one_sorted [of hp lp hilb fs trace' r']
    hilbert_one_bound [of hp lp hilb fs trace' r']
  by (simp add: increasing_in_def)

lemma basic_one_example:
  "basic_one [10, 10, 8, 6, 4, 6, 8, 10, 9, 10, 3, 10]
     [0, 0.01, 0.02, 0.03, 0.04, 0.05, 0.06, 0.07, 0.08, 0.09, 0.10, 0.11]
   = Inr (Saved [4, 10] [0.04, 0.10])"
  by code_simp

lemma hilbert_one_example:
  "hilbert_one (\<lambda>x. x) (\<lambda>x. x) (map abs) 100
     [100, 50, 100, 100, 100, 100, 100, 100, 100, 100, 100, 50, 100, 100, 100, 100, 100, 100,
      100, 100, 100, 50]
   = Inr (Saved [1, 11, 21] [0.01, 0.11, 0.21])"
  by code_simp

theorem lick_indices_strictly_increasing_witness:
  "basic_one [10, 10, 8, 6, 4, 6, 8, 10, 9, 10, 3, 10]
     [0, 0.01, 0.02, 0.03, 0.04, 0.05, 0.06, 0.07, 0.08, 0.09, 0.10, 0.11]
     = Inr (Saved [4, 10] [0.04, 0.10]) \<and>
   sorted_wrt (<) (lick_indices (Saved [4, 10 :: int] [0.04, 0.10])) \<and>
   hilbert_one (\<lambda>x. x) (\<lambda>x. x) (map abs) 100
     [100, 50, 100, 100, 100, 100, 100, 100, 100, 100, 100, 50, 100, 100, 100, 100, 100, 100,
      100, 100, 100, 50]
     = Inr (Saved [1, 11, 21] [0.01, 0.11, 0.21]) \<and>
   sorted_wrt (<) (lick_indices (Saved [1, 11, 21 :: nat] [0.01, 0.11, 0.21]))"
  using lick_indices_strictly_increasing
    [of "[10, 10, 8, 6, 4, 6, 8, 10, 9, 10, 3, 10]"
        "[0, 0.01, 0.02, 0.03, 0.04, 0.05, 0.06, 0.07, 0.08, 0.09, 0.10, 0.11]"
        "Saved [4, 10] [0.04, 0.10]"
        "\<lambda>x. x" "\<lambda>x. x" "map abs" 100
        "[100, 50, 100, 100, 100, 100, 100, 100, 100, 100, 100, 50, 100, 100, 100, 100, 100,
          100, 100, 100, 100, 50]"
        "Saved [1, 11, 21] [0.01, 0.11, 0.21]"]
    basic_one_example hilbert_one_example
  by simp

end
